theory Spec2Isabelle
  imports Main "HOL-Library.Word" "HOL-Library.Finite_Map"
begin

section \<open>Bytes and the byte searches of package bytes\<close>

text \<open>
  The writer of logrot (the size-based \<^verbatim>\<open>writeCloser\<close>) works on Go byte slices.
  A byte is an 8-bit word; the line terminator is the byte 10.  Go's \<^verbatim>\<open>int\<close> and
  \<^verbatim>\<open>int64\<close> are modelled as \<open>int\<close>: every value the writer computes is a file size,
  an offset into a file or into the slice being written, or the sentinel \<open>-1\<close>, all far
  from the 64-bit bounds.
\<close>

type_synonym byte = "8 word"

abbreviation NL :: byte where
  "NL \<equiv> 10"

text \<open>\<^verbatim>\<open>bytes.IndexByte(s, c)\<close>: index of the first \<open>c\<close> in \<open>s\<close>, or \<open>-1\<close>.\<close>

fun IndexByte :: "byte list \<Rightarrow> byte \<Rightarrow> int" where
  "IndexByte [] c = -1"
| "IndexByte (b # bs) c =
     (if b = c then 0
      else (let i = IndexByte bs c in if i = -1 then -1 else i + 1))"

text \<open>\<^verbatim>\<open>bytes.LastIndexByte(s, c)\<close>: index of the last \<open>c\<close> in \<open>s\<close>, or \<open>-1\<close>.\<close>

fun LastIndexByte :: "byte list \<Rightarrow> byte \<Rightarrow> int" where
  "LastIndexByte [] c = -1"
| "LastIndexByte (b # bs) c =
     (let i = LastIndexByte bs c
      in if i \<noteq> -1 then i + 1 else if b = c then 0 else -1)"

section \<open>The boundary computation of Write\<close>

text \<open>
  The inner loop of \<^verbatim>\<open>Write\<close>: it advances \<open>br\<close> over \<open>p\<close> a line at a time and
  updates \<^verbatim>\<open>wc.lastNewline\<close>.  The arguments are \<^verbatim>\<open>wc.size\<close>, \<^verbatim>\<open>wc.maxSize\<close>,
  \<^verbatim>\<open>wc.lastNewline\<close>, the slice and \<open>br\<close>; the result is the new
  \<^verbatim>\<open>wc.lastNewline\<close> and the final \<open>br\<close>.
\<close>

function scan_lines :: "int \<Rightarrow> int \<Rightarrow> int \<Rightarrow> byte list \<Rightarrow> int \<Rightarrow> int \<times> int" where
  "scan_lines sz mx ln p br =
     (let i = IndexByte (drop (nat br) p) NL
      in if i = -1 then (ln, br + int (length (drop (nat br) p)))
         else
           (let lnl = sz + (br + i);
                ln' = (if lnl < mx \<or> ln = -1 then lnl else ln);
                br' = br + (i + 1)
            in if sz + br' > mx then (ln', br')
               else scan_lines sz mx ln' p br'))"
  by pat_completeness auto

lemma IndexByte_ge: "- 1 \<le> IndexByte s c"
  by (induction s) (auto simp: Let_def)

lemma IndexByte_less: "IndexByte s c < int (length s)"
  by (induction s) (auto simp: Let_def)

lemma IndexByte_none_iff: "IndexByte s c = - 1 \<longleftrightarrow> c \<notin> set s"
proof (induction s)
  case Nil
  then show ?case by simp
next
  case (Cons b s)
  from IndexByte_ge [of s c] have "IndexByte s c + 1 \<noteq> - 1" by linarith
  with Cons show ?case by (auto simp: Let_def)
qed

lemma IndexByte_nth: "IndexByte s c \<noteq> - 1 \<Longrightarrow> s ! nat (IndexByte s c) = c"
proof (induction s)
  case Nil
  then show ?case by simp
next
  case (Cons b s)
  show ?case
  proof (cases "b = c")
    case True
    then show ?thesis by simp
  next
    case False
    with Cons.prems have ne: "IndexByte s c \<noteq> - 1"
      by (auto simp: Let_def split: if_splits)
    with IndexByte_ge [of s c] have "0 \<le> IndexByte s c" by linarith
    then have "nat (IndexByte s c + 1) = Suc (nat (IndexByte s c))" by linarith
    with False ne Cons.IH show ?thesis by (simp add: Let_def)
  qed
qed

lemma IndexByte_first:
  "IndexByte s c \<noteq> - 1 \<Longrightarrow> c \<notin> set (take (nat (IndexByte s c)) s)"
proof (induction s)
  case Nil
  then show ?case by simp
next
  case (Cons b s)
  show ?case
  proof (cases "b = c")
    case True
    then show ?thesis by simp
  next
    case False
    with Cons.prems have ne: "IndexByte s c \<noteq> - 1"
      by (auto simp: Let_def split: if_splits)
    with IndexByte_ge [of s c] have "0 \<le> IndexByte s c" by linarith
    then have "nat (IndexByte s c + 1) = Suc (nat (IndexByte s c))" by linarith
    with False ne Cons.IH show ?thesis by (simp add: Let_def)
  qed
qed

termination scan_lines
proof (relation "measure (\<lambda>(sz, mx, ln, p, br). nat (int (length p) - br))")
  show "wf (measure (\<lambda>(sz, mx, ln, p, br). nat (int (length p) - br)))" by simp
next
  fix sz mx ln :: int and p :: "byte list" and br i lnl ln' br' :: int
  assume i: "i = IndexByte (drop (nat br) p) NL" and ne: "i \<noteq> - 1"
    and br': "br' = br + (i + 1)"
  from ne i IndexByte_ge [of "drop (nat br) p" NL] have i0: "0 \<le> i" by linarith
  from i IndexByte_less [of "drop (nat br) p" NL]
  have "i < int (length p - nat br)" by simp
  with i0 have "i < int (length p) - br \<or> br < 0" by linarith
  with i0 have "nat (int (length p) - br') < nat (int (length p) - br)"
    unfolding br' by linarith
  then show "((sz, mx, ln', p, br'), (sz, mx, ln, p, br))
      \<in> measure (\<lambda>(sz, mx, ln, p, br). nat (int (length p) - br))"
    by simp
qed

declare scan_lines.simps [simp del]

lemma scan_lines_done:
  "IndexByte (drop (nat br) p) NL = - 1 \<Longrightarrow>
   scan_lines sz mx ln p br = (ln, br + int (length (drop (nat br) p)))"
  by (subst scan_lines.simps) simp

lemma scan_lines_stop:
  "IndexByte (drop (nat br) p) NL = i \<Longrightarrow> i \<noteq> - 1 \<Longrightarrow> mx < sz + (br + (i + 1)) \<Longrightarrow>
   scan_lines sz mx ln p br =
     (if sz + (br + i) < mx \<or> ln = - 1 then sz + (br + i) else ln, br + (i + 1))"
  by (subst scan_lines.simps) (simp add: Let_def)

lemma scan_lines_next:
  "IndexByte (drop (nat br) p) NL = i \<Longrightarrow> i \<noteq> - 1 \<Longrightarrow> \<not> mx < sz + (br + (i + 1)) \<Longrightarrow>
   scan_lines sz mx ln p br =
     scan_lines sz mx (if sz + (br + i) < mx \<or> ln = - 1 then sz + (br + i) else ln) p
       (br + (i + 1))"
  by (subst scan_lines.simps) (simp add: Let_def)

lemma scan_lines_props:
  "scan_lines sz mx ln p br = (ln', br') \<Longrightarrow> 0 \<le> br \<Longrightarrow> br \<le> int (length p) \<Longrightarrow>
     br \<le> br' \<and> br' \<le> int (length p) \<and> (br < int (length p) \<longrightarrow> br < br') \<and>
     (ln' = ln \<or> (sz + br \<le> ln' \<and> ln' < sz + br' \<and> p ! nat (ln' - sz) = NL))"
proof (induction sz mx ln p br arbitrary: ln' br' rule: scan_lines.induct)
  case (1 sz mx ln p br)
  define i where "i = IndexByte (drop (nat br) p) NL"
  define lnl where "lnl = sz + (br + i)"
  define ln1 where "ln1 = (if lnl < mx \<or> ln = - 1 then lnl else ln)"
  define br1 where "br1 = br + (i + 1)"
  have len: "int (length (drop (nat br) p)) = int (length p) - br"
    using "1.prems"(2,3) by simp
  show ?case
  proof (cases "i = - 1")
    case True
    then have "scan_lines sz mx ln p br = (ln, br + int (length (drop (nat br) p)))"
      unfolding i_def by (rule scan_lines_done)
    with "1.prems"(1) have "ln' = ln" "br' = br + int (length (drop (nat br) p))"
      by simp_all
    with len "1.prems"(2,3) show ?thesis by simp
  next
    case False
    with IndexByte_ge [of "drop (nat br) p" NL] have i0: "0 \<le> i"
      unfolding i_def by linarith
    from IndexByte_less [of "drop (nat br) p" NL] have ilt: "i < int (length p) - br"
      unfolding i_def len .
    from False IndexByte_nth [of "drop (nat br) p" NL]
    have "drop (nat br) p ! nat i = NL" unfolding i_def by simp
    moreover have "nat br + nat i \<le> length p" using i0 ilt "1.prems"(2) by linarith
    ultimately have "p ! (nat br + nat i) = NL" by simp
    moreover have "nat br + nat i = nat (lnl - sz)"
      using i0 "1.prems"(2) by (simp add: lnl_def nat_add_distrib)
    ultimately have nl: "p ! nat (lnl - sz) = NL" by simp
    have ln1: "ln1 = ln \<or> ln1 = lnl" by (simp add: ln1_def)
    have lnl_bounds: "sz + br \<le> lnl" "lnl < sz + br1"
      using i0 by (simp_all add: lnl_def br1_def)
    have br1_bounds: "br < br1" "br1 \<le> int (length p)" "0 \<le> br1"
      using i0 ilt "1.prems"(2) by (simp_all add: br1_def)
    show ?thesis
    proof (cases "mx < sz + br1")
      case True
      have "scan_lines sz mx ln p br = (ln1, br1)"
        unfolding ln1_def lnl_def br1_def
        by (rule scan_lines_stop [OF i_def [symmetric] False True [unfolded br1_def]])
      with "1.prems"(1) have "ln' = ln1" "br' = br1" by simp_all
      with ln1 lnl_bounds br1_bounds nl show ?thesis by auto
    next
      case nb: False
      have "scan_lines sz mx ln p br = scan_lines sz mx ln1 p br1"
        unfolding ln1_def lnl_def br1_def
        by (rule scan_lines_next [OF i_def [symmetric] False nb [unfolded br1_def]])
      with "1.prems"(1) have rec: "scan_lines sz mx ln1 p br1 = (ln', br')" by simp
      have "br1 \<le> br' \<and> br' \<le> int (length p) \<and> (br1 < int (length p) \<longrightarrow> br1 < br') \<and>
        (ln' = ln1 \<or> (sz + br1 \<le> ln' \<and> ln' < sz + br' \<and> p ! nat (ln' - sz) = NL))"
      proof (rule "1.IH" [OF i_def False lnl_def ln1_def br1_def _ rec])
        show "\<not> mx < sz + br1" by (rule nb)
        show "0 \<le> br1" "br1 \<le> int (length p)" using br1_bounds by simp_all
      qed
      with ln1 lnl_bounds br1_bounds nl show ?thesis by auto
    qed
  qed
qed

section \<open>Errors\<close>

text \<open>
  Go's \<^verbatim>\<open>error\<close> values.  \<open>ErrNotExist\<close> is the one failure for which
  \<^verbatim>\<open>os.IsNotExist\<close> holds; \<open>Errno c\<close> is any other failure reported by the
  operating system or by the compressor.  \<open>ErrPrevious e\<close> is the value built by
  \<^verbatim>\<open>fmt.Errorf("logrot: Write cannot complete due to previous error: %v", e)\<close>.
\<close>

datatype error =
    ErrNotExist
  | Errno nat
  | EOF
  | ErrClosed
  | ErrNegative
  | ErrMaxSize
  | ErrMaxFiles
  | ErrNotRegular
  | ErrWriterClosed
  | ErrPrevious error

fun IsNotExist :: "error \<Rightarrow> bool" where
  "IsNotExist ErrNotExist = True"
| "IsNotExist _ = False"

section \<open>The file system\<close>

text \<open>
  The writer touches one path and its numbered siblings \<^verbatim>\<open><path>.<n>.gz\<close>.  The
  world holds what is at the path, the archives by their number, the state of the one
  handle \<^verbatim>\<open>wc.file\<close> (open or not, and its cursor), the number of file operations
  issued so far and, for each of them, whether the environment makes it fail.

  An archive is kept abstractly: \<open>payload\<close> is the data that was fed to the gzip
  writer of the file, \<open>finished\<close> tells that the gzip stream was flushed and closed and
  the file closed without an error, and \<open>residue\<close> tells that the file was opened over
  an existing one (there is no \<^verbatim>\<open>O_TRUNC\<close>), so that old bytes may follow the stream.
  The archive holds exactly the compressed form of \<open>d\<close> when it is \<open>GzFile d True False\<close>.
\<close>

datatype node = Absent | Special | Regular "byte list"

datatype gzfile = GzFile (payload: "byte list") (finished: bool) (residue: bool)

datatype fault = Fail (errno: nat) (progress: nat)

record world =
  target :: node
  archives :: "(int, gzfile) fmap"
  handle_open :: bool
  cursor :: nat
  io_count :: nat
  faults :: "nat \<Rightarrow> fault option"

definition content :: "world \<Rightarrow> byte list" where
  "content w = (case target w of Regular bs \<Rightarrow> bs | _ \<Rightarrow> [])"

definition fault_now :: "world \<Rightarrow> fault option" where
  "fault_now w = faults w (io_count w)"

definition step :: "world \<Rightarrow> world" where
  "step w = w\<lparr>io_count := Suc (io_count w)\<rparr>"

text \<open>Bytes \<open>xs\<close> stored at offset \<open>off\<close>; a hole past the end reads as zeros.\<close>

definition write_at :: "byte list \<Rightarrow> nat \<Rightarrow> byte list \<Rightarrow> byte list" where
  "write_at bs off xs =
     (if xs = [] then bs
      else take off bs @ replicate (off - length bs) 0 @ xs @ drop (off + length xs) bs)"

subsection \<open>Operations on the archives\<close>

text \<open>\<^verbatim>\<open>os.Lstat(fmt.Sprintf("%s.%d.gz", wc.path, n))\<close>; only the error is used.\<close>

definition Lstat_gz :: "int \<Rightarrow> world \<Rightarrow> error option \<times> world" where
  "Lstat_gz n w =
     (case fault_now w of
        Some f \<Rightarrow> (Some (Errno (errno f)), step w)
      | None \<Rightarrow>
          (case fmlookup (archives w) n of
             None \<Rightarrow> (Some ErrNotExist, step w)
           | Some g \<Rightarrow> (None, step w)))"

text \<open>\<^verbatim>\<open>os.Remove\<close> of archive \<open>n\<close>.\<close>

definition Remove_gz :: "int \<Rightarrow> world \<Rightarrow> error option \<times> world" where
  "Remove_gz n w =
     (case fault_now w of
        Some f \<Rightarrow> (Some (Errno (errno f)), step w)
      | None \<Rightarrow>
          (case fmlookup (archives w) n of
             None \<Rightarrow> (Some ErrNotExist, step w)
           | Some g \<Rightarrow> (None, step (w\<lparr>archives := fmdrop n (archives w)\<rparr>))))"

text \<open>\<^verbatim>\<open>os.Rename\<close> of archive \<open>n\<close> to archive \<open>m\<close>; an existing \<open>m\<close> is replaced.\<close>

definition Rename_gz :: "int \<Rightarrow> int \<Rightarrow> world \<Rightarrow> error option \<times> world" where
  "Rename_gz n m w =
     (case fault_now w of
        Some f \<Rightarrow> (Some (Errno (errno f)), step w)
      | None \<Rightarrow>
          (case fmlookup (archives w) n of
             None \<Rightarrow> (Some ErrNotExist, step w)
           | Some g \<Rightarrow>
               (None, step (w\<lparr>archives := fmupd m g (fmdrop n (archives w))\<rparr>))))"

text \<open>
  \<^verbatim>\<open>os.OpenFile(<archive n>, os.O_WRONLY|os.O_CREATE, perm)\<close> followed by
  \<^verbatim>\<open>gzip.NewWriter\<close>: a new stream starts at offset 0 of the file.
\<close>

definition OpenFile_gz :: "int \<Rightarrow> nat \<Rightarrow> world \<Rightarrow> error option \<times> world" where
  "OpenFile_gz n prm w =
     (case fault_now w of
        Some f \<Rightarrow> (Some (Errno (errno f)), step w)
      | None \<Rightarrow>
          (case fmlookup (archives w) n of
             None \<Rightarrow>
               (None, step (w\<lparr>archives := fmupd n (GzFile [] False False) (archives w)\<rparr>))
           | Some g \<Rightarrow>
               (None, step (w\<lparr>archives := fmupd n (GzFile [] False True) (archives w)\<rparr>))))"

definition feed_gz :: "int \<Rightarrow> byte list \<Rightarrow> world \<Rightarrow> world" where
  "feed_gz n xs w =
     (case fmlookup (archives w) n of
        None \<Rightarrow> w
      | Some g \<Rightarrow> w\<lparr>archives := fmupd n (GzFile (payload g @ xs) False (residue g)) (archives w)\<rparr>)"

definition set_finished :: "int \<Rightarrow> bool \<Rightarrow> world \<Rightarrow> world" where
  "set_finished n b w =
     (case fmlookup (archives w) n of
        None \<Rightarrow> w
      | Some g \<Rightarrow> w\<lparr>archives := fmupd n (GzFile (payload g) b (residue g)) (archives w)\<rparr>)"

text \<open>
  \<^verbatim>\<open>io.CopyN(gw, wc.file, k)\<close>: \<open>k\<close> bytes are read from the handle at its cursor
  and fed to the gzip writer of archive \<open>n\<close>; fewer than \<open>k\<close> bytes in the file is
  \<^verbatim>\<open>io.EOF\<close>.  A failing copy has moved some of the bytes.
\<close>

definition CopyN_gz :: "int \<Rightarrow> int \<Rightarrow> world \<Rightarrow> error option \<times> world" where
  "CopyN_gz n k w =
     (if \<not> handle_open w then (Some ErrClosed, step w)
      else
        (let avail = take (nat k) (drop (cursor w) (content w))
         in case fault_now w of
              Some f \<Rightarrow>
                (let got = take (progress f) avail
                 in (Some (Errno (errno f)),
                     step (feed_gz n got (w\<lparr>cursor := cursor w + length got\<rparr>))))
            | None \<Rightarrow>
                (if int (length avail) < k then Some EOF else None,
                 step (feed_gz n avail (w\<lparr>cursor := cursor w + length avail\<rparr>)))))"

text \<open>\<^verbatim>\<open>gw.Close()\<close>: flushes the compressor and writes the trailer of the stream.\<close>

definition gw_Close :: "int \<Rightarrow> world \<Rightarrow> error option \<times> world" where
  "gw_Close n w =
     (case fault_now w of
        Some f \<Rightarrow> (Some (Errno (errno f)), step (set_finished n False w))
      | None \<Rightarrow> (None, step (set_finished n True w)))"

text \<open>\<^verbatim>\<open>w.Close()\<close> of the archive file.\<close>

definition w_Close :: "int \<Rightarrow> world \<Rightarrow> error option \<times> world" where
  "w_Close n w =
     (case fault_now w of
        Some f \<Rightarrow> (Some (Errno (errno f)), step (set_finished n False w))
      | None \<Rightarrow> (None, step w))"

subsection \<open>Operations on the handle of the live file\<close>

text \<open>\<^verbatim>\<open>wc.file.Seek(0, 0)\<close>.\<close>

definition Seek0 :: "world \<Rightarrow> error option \<times> world" where
  "Seek0 w =
     (if \<not> handle_open w then (Some ErrClosed, step w)
      else
        (case fault_now w of
           Some f \<Rightarrow> (Some (Errno (errno f)), step w)
         | None \<Rightarrow> (None, step (w\<lparr>cursor := 0\<rparr>))))"

text \<open>
  The loop of \<^verbatim>\<open>io.Copy\<close> from a section of the file to the same file: a window of
  at most \<open>win\<close> bytes is read at \<open>src\<close> and written at \<open>dst\<close>, until \<open>rem\<close> bytes are
  moved or the file ends.  The result is the content and the destination offset reached.
\<close>

function copy_window :: "nat \<Rightarrow> byte list \<Rightarrow> nat \<Rightarrow> nat \<Rightarrow> nat \<Rightarrow> byte list \<times> nat" where
  "copy_window win bs src dst rem =
     (let chunk = take (min rem win) (drop src bs)
      in if chunk = [] then (bs, dst)
         else copy_window win (write_at bs dst chunk)
                (src + length chunk) (dst + length chunk) (rem - length chunk))"
  by pat_completeness auto
termination
  by (relation "measure (\<lambda>(win, bs, src, dst, rem). rem)") auto

declare copy_window.simps [simp del]

text \<open>
  \<^verbatim>\<open>io.Copy(wc.file, io.NewSectionReader(wc.file, off, n))\<close>: the section is read
  with explicit offsets, and written at the cursor of the handle, through a buffer of
  32 KB.  A section of length 0 is empty; with a negative \<open>n\<close> the limit \<open>off + n\<close> of
  the section is replaced by the largest offset, so the section runs to the end of the
  file.  (In \<^verbatim>\<open>rotate\<close> the copy follows \<^verbatim>\<open>Seek(0, 0)\<close>: the cursor is not beyond
  \<open>off\<close> and the file does not grow while it is copied.)  A failing copy has moved some
  of the bytes.
\<close>

definition Copy_section :: "int \<Rightarrow> int \<Rightarrow> world \<Rightarrow> error option \<times> world" where
  "Copy_section off n w =
     (if n = 0 then (None, step w)
      else if off < 0 then (Some ErrNegative, step w)
      else if \<not> handle_open w then (Some ErrClosed, step w)
      else
        (let len = (if n < 0 then length (content w) - nat off else nat n)
         in case fault_now w of
              Some f \<Rightarrow>
                (case copy_window 32768 (content w) (nat off) (cursor w) (min (progress f) len) of
                   (bs, c) \<Rightarrow>
                     (Some (Errno (errno f)), step (w\<lparr>target := Regular bs, cursor := c\<rparr>)))
            | None \<Rightarrow>
                (case copy_window 32768 (content w) (nat off) (cursor w) len of
                   (bs, c) \<Rightarrow> (None, step (w\<lparr>target := Regular bs, cursor := c\<rparr>)))))"

text \<open>\<^verbatim>\<open>wc.file.Truncate(n)\<close>.\<close>

definition Truncate :: "int \<Rightarrow> world \<Rightarrow> error option \<times> world" where
  "Truncate n w =
     (if \<not> handle_open w then (Some ErrClosed, step w)
      else if n < 0 then (Some ErrNegative, step w)
      else
        (case fault_now w of
           Some f \<Rightarrow> (Some (Errno (errno f)), step w)
         | None \<Rightarrow>
             (None,
              step (w\<lparr>target :=
                Regular (take (nat n) (content w) @ replicate (nat n - length (content w)) 0)\<rparr>))))"

text \<open>
  \<^verbatim>\<open>wc.file.WriteAt(xs, off)\<close>, returning the number of bytes written and the
  error.  An empty slice is written without reaching the file.  A failing write returns
  the count 0 with its error, while some of the bytes, fewer than asked or none, may
  have reached the file.
\<close>

definition WriteAt :: "byte list \<Rightarrow> int \<Rightarrow> world \<Rightarrow> int \<times> error option \<times> world" where
  "WriteAt xs off w =
     (if off < 0 then (0, Some ErrNegative, step w)
      else if xs = [] then (0, None, step w)
      else if \<not> handle_open w then (0, Some ErrClosed, step w)
      else
        (case fault_now w of
           Some f \<Rightarrow>
             (0, Some (Errno (errno f)),
              step (w\<lparr>target :=
                Regular (write_at (content w) (nat off) (take (progress f) xs))\<rparr>))
         | None \<Rightarrow>
             (int (length xs), None,
              step (w\<lparr>target := Regular (write_at (content w) (nat off) xs)\<rparr>))))"

text \<open>
  \<^verbatim>\<open>file.ReadAt(buf[:k], off)\<close>, returning the bytes read and the error; fewer
  than \<open>k\<close> bytes in the file from \<open>off\<close> on is \<^verbatim>\<open>io.EOF\<close>.
\<close>

definition ReadAt :: "int \<Rightarrow> int \<Rightarrow> world \<Rightarrow> byte list \<times> error option \<times> world" where
  "ReadAt k off w =
     (if off < 0 then ([], Some ErrNegative, step w)
      else if \<not> handle_open w then ([], Some ErrClosed, step w)
      else
        (case fault_now w of
           Some f \<Rightarrow> ([], Some (Errno (errno f)), step w)
         | None \<Rightarrow>
             (let got = take (nat k) (drop (nat off) (content w))
              in (got, if int (length got) < k then Some EOF else None, step w))))"

text \<open>
  \<^verbatim>\<open>file.Close()\<close>: the handle is unusable afterwards whether or not the close
  reports a failure, and closing it again is an error.
\<close>

definition file_Close :: "world \<Rightarrow> error option \<times> world" where
  "file_Close w =
     (if \<not> handle_open w then (Some ErrClosed, step w)
      else
        (case fault_now w of
           Some f \<Rightarrow> (Some (Errno (errno f)), step (w\<lparr>handle_open := False\<rparr>))
         | None \<Rightarrow> (None, step (w\<lparr>handle_open := False\<rparr>))))"

text \<open>
  \<^verbatim>\<open>os.Lstat(path)\<close>: the result is whether the mode is that of a regular file
  (\<^verbatim>\<open>fi.Mode()&os.ModeType == 0\<close>) and the size.
\<close>

definition Lstat_path :: "world \<Rightarrow> (error + bool \<times> int) \<times> world" where
  "Lstat_path w =
     (case fault_now w of
        Some f \<Rightarrow> (Inl (Errno (errno f)), step w)
      | None \<Rightarrow>
          (case target w of
             Absent \<Rightarrow> (Inl ErrNotExist, step w)
           | Special \<Rightarrow> (Inr (False, 0), step w)
           | Regular bs \<Rightarrow> (Inr (True, int (length bs)), step w)))"

text \<open>\<^verbatim>\<open>os.OpenFile(path, os.O_RDWR|os.O_CREATE, perm)\<close>.\<close>

definition OpenFile_path :: "nat \<Rightarrow> world \<Rightarrow> error option \<times> world" where
  "OpenFile_path prm w =
     (case fault_now w of
        Some f \<Rightarrow> (Some (Errno (errno f)), step w)
      | None \<Rightarrow>
          (case target w of
             Absent \<Rightarrow>
               (None, step (w\<lparr>target := Regular [], handle_open := True, cursor := 0\<rparr>))
           | Special \<Rightarrow> (Some (Errno 21), step w)
           | Regular bs \<Rightarrow> (None, step (w\<lparr>handle_open := True, cursor := 0\<rparr>))))"

text \<open>Two environments: one in which no operation fails, one with a single failure.\<close>

definition no_faults :: "nat \<Rightarrow> fault option" where
  "no_faults k = None"

definition fault_at :: "nat \<Rightarrow> fault \<Rightarrow> nat \<Rightarrow> fault option" where
  "fault_at n f k = (if k = n then Some f else None)"

section \<open>The writer\<close>

text \<open>
  The struct \<^verbatim>\<open>writeCloser\<close>.  Its \<^verbatim>\<open>file\<close> is the handle kept in the world, and
  its mutex serialises the calls, which are modelled one after the other.  The field
  \<^verbatim>\<open>size\<close> is written \<open>size'\<close>.
\<close>

record writeCloser =
  path :: string
  perm :: nat
  maxSize :: int
  maxFiles :: int
  size' :: int
  lastNewline :: int
  closed :: bool
  writeErr :: "error option"

subsection \<open>rotate\<close>

text \<open>The method \<^verbatim>\<open>rotate\<close> is written \<open>rotate'\<close>; its parts carry the comments of the source.\<close>

text \<open>"find highest n such that <path>.<n>.gz exists"\<close>

function highest_gz :: "int \<Rightarrow> world \<Rightarrow> (error + int) \<times> world" where
  "highest_gz n w =
     (case Lstat_gz (n + 1) w of
        (Some e, w') \<Rightarrow> if \<not> IsNotExist e then (Inl e, w') else (Inr n, w')
      | (None, w') \<Rightarrow> highest_gz (n + 1) w')"
  by pat_completeness auto

lemma Lstat_gz_None:
  "Lstat_gz n w = (None, w') \<Longrightarrow> n \<in> fmdom' (archives w) \<and> w' = step w"
  by (auto simp: Lstat_gz_def fmlookup_dom'_iff split: option.splits)

termination highest_gz
proof (relation "measure (\<lambda>(n, w). nat (Max (insert 0 (fmdom' (archives w))) - n))")
  show "wf (measure (\<lambda>(n, w). nat (Max (insert 0 (fmdom' (archives w))) - n)))" by simp
next
  fix n :: int and w x w' :: world and e :: "error option"
  assume "(e, w') = Lstat_gz (n + 1) w" and "e = None"
  then have m: "n + 1 \<in> fmdom' (archives w)" and w': "w' = step w"
    using Lstat_gz_None [of "n + 1" w w'] by simp_all
  from m have "n + 1 \<le> Max (insert 0 (fmdom' (archives w)))" by simp
  then show "((n + 1, w'), (n, w))
      \<in> measure (\<lambda>(n, w). nat (Max (insert 0 (fmdom' (archives w))) - n))"
    by (simp add: w' step_def)
qed

declare highest_gz.simps [simp del]

text \<open>"delete expired gz files"\<close>

function delete_expired :: "writeCloser \<Rightarrow> int \<Rightarrow> world \<Rightarrow> (error + int) \<times> world" where
  "delete_expired wc n w =
     (if n > maxFiles wc - 2 \<and> n > 0 then
        (case Remove_gz n w of
           (Some e, w') \<Rightarrow>
             if \<not> IsNotExist e then (Inl e, w') else delete_expired wc (n - 1) w'
         | (None, w') \<Rightarrow> delete_expired wc (n - 1) w')
      else (Inr n, w))"
  by pat_completeness auto
termination
  by (relation "measure (\<lambda>(wc, n, w). nat n)") auto

declare delete_expired.simps [simp del]

text \<open>"move each gz file up one number"\<close>

function move_up :: "int \<Rightarrow> world \<Rightarrow> error option \<times> world" where
  "move_up n w =
     (if n > 0 then
        (case Rename_gz n (n + 1) w of
           (Some e, w') \<Rightarrow>
             if \<not> IsNotExist e then (Some e, w') else move_up (n - 1) w'
         | (None, w') \<Rightarrow> move_up (n - 1) w')
      else (None, w))"
  by pat_completeness auto
termination
  by (relation "measure (\<lambda>(n, w). nat n)") auto

declare move_up.simps [simp del]

text \<open>
  "copy file contents up to last newline to <path>.1.gz".  The function literal returns
  the error of \<^verbatim>\<open>Seek\<close> or of \<^verbatim>\<open>io.CopyN\<close>.  Its deferred closure closes \<open>gw\<close>
  and \<open>w\<close> and stores a failure of theirs in the variable \<open>err\<close> of \<^verbatim>\<open>rotate\<close>, but
  the result of the literal is not a named result: it was fixed by the
  \<^verbatim>\<open>return\<close> statement before the closure ran, and the assignment
  \<^verbatim>\<open>err = func() error {...}()\<close> then overwrites \<open>err\<close> with it.  So the errors
  \<open>e1\<close> and \<open>e2\<close> of the two closes do not reach the test that follows.
\<close>

definition copy_to_gz :: "writeCloser \<Rightarrow> world \<Rightarrow> error option \<times> world" where
  "copy_to_gz wc w =
     (if maxFiles wc > 1 then
        (case OpenFile_gz 1 (perm wc) w of
           (Some e, w1) \<Rightarrow> (Some e, w1)
         | (None, w1) \<Rightarrow>
             (case (case Seek0 w1 of
                      (Some e, w2) \<Rightarrow> (Some e, w2)
                    | (None, w2) \<Rightarrow> CopyN_gz 1 (lastNewline wc + 1) w2) of
                (result, w3) \<Rightarrow>
                  (case gw_Close 1 w3 of
                     (e1, w4) \<Rightarrow>
                       (case w_Close 1 w4 of
                          (e2, w5) \<Rightarrow> (result, w5)))))
      else (None, w))"

text \<open>"copy contents beyond last newline to beginning of file" and "truncate file"\<close>

definition copy_to_beginning :: "writeCloser \<Rightarrow> world \<Rightarrow> error option \<times> world" where
  "copy_to_beginning wc w =
     (case Seek0 w of
        (Some e, w1) \<Rightarrow> (Some e, w1)
      | (None, w1) \<Rightarrow>
          (case Copy_section (lastNewline wc + 1) (size' wc - lastNewline wc - 1) w1 of
             (Some e, w2) \<Rightarrow> (Some e, w2)
           | (None, w2) \<Rightarrow> Truncate (size' wc - lastNewline wc - 1) w2))"

definition rotate' :: "writeCloser \<Rightarrow> world \<Rightarrow> error option \<times> writeCloser \<times> world" where
  "rotate' wc w =
     (case highest_gz 0 w of
        (Inl e, w1) \<Rightarrow> (Some e, wc, w1)
      | (Inr n, w1) \<Rightarrow>
          (case delete_expired wc n w1 of
             (Inl e, w2) \<Rightarrow> (Some e, wc, w2)
           | (Inr n', w2) \<Rightarrow>
               (case move_up n' w2 of
                  (Some e, w3) \<Rightarrow> (Some e, wc, w3)
                | (None, w3) \<Rightarrow>
                    (case copy_to_gz wc w3 of
                       (Some e, w4) \<Rightarrow> (Some e, wc, w4)
                     | (None, w4) \<Rightarrow>
                         (case copy_to_beginning wc w4 of
                            (Some e, w5) \<Rightarrow> (Some e, wc, w5)
                          | (None, w5) \<Rightarrow>
                              (None,
                               wc\<lparr>size' := size' wc - lastNewline wc - 1,
                                  lastNewline := - 1\<rparr>,
                               w5))))))"

subsection \<open>Write\<close>

text \<open>
  The decision that follows the inner loop: with a recorded newline, a write that would
  pass \<open>max (wc.maxSize, wc.lastNewline + 1)\<close> is cut down to that limit and a rotation
  is scheduled.  The result is the new \<open>br\<close> and the flag \<open>rotate\<close>.
\<close>

definition clip :: "int \<Rightarrow> int \<Rightarrow> int \<Rightarrow> int \<Rightarrow> int \<times> bool" where
  "clip sz mxs ln br =
     (if ln \<noteq> - 1 then
        (let mx = (if mxs > ln + 1 then mxs else ln + 1)
         in if sz + br > mx then (mx - sz, True) else (br, False))
      else (br, False))"

text \<open>
  A call of \<^verbatim>\<open>Write\<close> returns \<open>(bw, err)\<close>, or panics: the slice expression
  \<^verbatim>\<open>p[:br]\<close> panics when \<open>br\<close> is negative or beyond the slice.
\<close>

datatype write_result = Returned int "error option" | Panicked

text \<open>
  One pass through the body of the outer loop of \<^verbatim>\<open>Write\<close>, from the state of
  the writer, \<open>p\<close> and \<open>bw\<close>.  It either ends the call (\<open>Stop\<close>: a return or a
  panic) or reaches the post statement \<^verbatim>\<open>p, br = p[br:], 0\<close> and the loop goes on
  (\<open>Again\<close>).
\<close>

datatype chunk_result =
    Stop "write_result \<times> writeCloser \<times> world"
  | Again writeCloser "byte list" int world

definition Write_chunk :: "writeCloser \<Rightarrow> byte list \<Rightarrow> int \<Rightarrow> world \<Rightarrow> chunk_result" where
  "Write_chunk wc p bw w =
     (case scan_lines (size' wc) (maxSize wc) (lastNewline wc) p 0 of
        (ln, br0) \<Rightarrow>
          (let wc1 = wc\<lparr>lastNewline := ln\<rparr>
           in case clip (size' wc1) (maxSize wc1) (lastNewline wc1) br0 of
                (br, rot) \<Rightarrow>
                  if br < 0 \<or> int (length p) < br then Stop (Panicked, wc1, w)
                  else
                    (case WriteAt (take (nat br) p) (size' wc1) w of
                       (n, err, w1) \<Rightarrow>
                         (let bw' = bw + n;
                              wc2 = wc1\<lparr>size' := size' wc1 + n\<rparr>
                          in case err of
                               Some e \<Rightarrow> Stop (Returned bw' (Some e), wc2, w1)
                             | None \<Rightarrow>
                                 if rot then
                                   (case rotate' wc2 w1 of
                                      (Some e, wc3, w2) \<Rightarrow>
                                        Stop (Returned bw' (Some e), wc3, w2)
                                    | (None, wc3, w2) \<Rightarrow>
                                        Again wc3 (drop (nat br) p) bw' w2)
                                 else Again wc2 (drop (nat br) p) bw' w1))))"

text \<open>The outer loop of \<^verbatim>\<open>Write\<close>.\<close>

function Write_loop ::
  "writeCloser \<Rightarrow> byte list \<Rightarrow> int \<Rightarrow> world \<Rightarrow> write_result \<times> writeCloser \<times> world" where
  "Write_loop wc p bw w =
     (if length p > 0 then
        (case Write_chunk wc p bw w of
           Stop r \<Rightarrow> r
         | Again wc' p' bw' w' \<Rightarrow> Write_loop wc' p' bw' w')
      else (Returned bw None, wc, w))"
  by pat_completeness auto

lemma scan_lines_start:
  assumes "scan_lines sz mx ln p 0 = (ln', br')" and "p \<noteq> []"
  shows "0 < br'" and "br' \<le> int (length p)"
    and "ln' = ln \<or> (sz \<le> ln' \<and> ln' < sz + br' \<and> p ! nat (ln' - sz) = NL)"
  using scan_lines_props [OF assms(1)] assms(2) by auto

lemma clip_True:
  "clip sz mxs ln br = (br', True) \<Longrightarrow>
     ln \<noteq> - 1 \<and> br' = max mxs (ln + 1) - sz \<and> br' < br"
  by (auto simp: clip_def Let_def max_def split: if_splits)

lemma clip_False:
  "clip sz mxs ln br = (br', False) \<Longrightarrow>
     br' = br \<and> (ln \<noteq> - 1 \<longrightarrow> sz + br \<le> max mxs (ln + 1))"
  by (auto simp: clip_def Let_def max_def split: if_splits)

lemma rotate_ok:
  "rotate' wc w = (None, wc', w') \<Longrightarrow>
     wc' = wc\<lparr>size' := size' wc - lastNewline wc - 1, lastNewline := - 1\<rparr>"
  by (auto simp: rotate'_def split: prod.splits sum.splits option.splits)

text \<open>
  What a pass that lets the loop go on has done: it wrote the first \<open>br\<close> bytes of \<open>p\<close>
  in full, after the scan and the cut, and ran the rotation when one was scheduled.
\<close>

lemma Write_chunk_Again:
  assumes "Write_chunk wc p bw w = Again wc' p' bw' w'"
  obtains ln br0 br rot w1 where
    "scan_lines (size' wc) (maxSize wc) (lastNewline wc) p 0 = (ln, br0)"
    "clip (size' wc) (maxSize wc) ln br0 = (br, rot)"
    "0 \<le> br" "br \<le> int (length p)"
    "WriteAt (take (nat br) p) (size' wc) w = (br, None, w1)"
    "p' = drop (nat br) p" "bw' = bw + br"
    "if rot
     then rotate' (wc\<lparr>lastNewline := ln, size' := size' wc + br\<rparr>) w1 = (None, wc', w')
     else wc' = wc\<lparr>lastNewline := ln, size' := size' wc + br\<rparr> \<and> w' = w1"
proof -
  obtain ln br0 where sc: "scan_lines (size' wc) (maxSize wc) (lastNewline wc) p 0 = (ln, br0)"
    by force
  obtain br rot where cl: "clip (size' wc) (maxSize wc) ln br0 = (br, rot)"
    by force
  obtain n err w1 where wr: "WriteAt (take (nat br) p) (size' wc) w = (n, err, w1)"
    by (metis prod_cases3)
  from assms sc cl have range: "0 \<le> br" "br \<le> int (length p)"
    by (auto simp: Write_chunk_def Let_def split: if_splits)
  from assms sc cl wr range have err: "err = None"
    by (auto simp: Write_chunk_def Let_def split: if_splits option.splits)
  from wr err range have n: "n = br"
    by (auto simp: WriteAt_def Let_def split: if_splits option.splits)
  from assms sc cl wr range err n
  have "p' = drop (nat br) p" "bw' = bw + br"
    "if rot
     then rotate' (wc\<lparr>lastNewline := ln, size' := size' wc + br\<rparr>) w1 = (None, wc', w')
     else wc' = wc\<lparr>lastNewline := ln, size' := size' wc + br\<rparr> \<and> w' = w1"
    by (auto simp: Write_chunk_def Let_def split: if_splits option.splits prod.splits)
  with sc cl range wr err n show thesis by (intro that) simp_all
qed

lemma Write_chunk_decrease:
  assumes "Write_chunk wc p bw w = Again wc' p' bw' w'" and "p \<noteq> []"
  shows "length p' < length p \<or>
         (length p' = length p \<and> lastNewline wc \<noteq> - 1 \<and> lastNewline wc' = - 1)"
proof -
  from assms(1) obtain ln br0 br rot w1 where
    sc: "scan_lines (size' wc) (maxSize wc) (lastNewline wc) p 0 = (ln, br0)" and
    cl: "clip (size' wc) (maxSize wc) ln br0 = (br, rot)" and
    range: "0 \<le> br" "br \<le> int (length p)" and
    p': "p' = drop (nat br) p" and
    fin: "if rot
     then rotate' (wc\<lparr>lastNewline := ln, size' := size' wc + br\<rparr>) w1 = (None, wc', w')
     else wc' = wc\<lparr>lastNewline := ln, size' := size' wc + br\<rparr> \<and> w' = w1"
    by (rule Write_chunk_Again)
  show ?thesis
  proof (cases rot)
    case True
    with fin have "rotate' (wc\<lparr>lastNewline := ln, size' := size' wc + br\<rparr>) w1 = (None, wc', w')"
      by simp
    from rotate_ok [OF this] have l: "lastNewline wc' = - 1" by simp
    from cl True have c: "clip (size' wc) (maxSize wc) ln br0 = (br, True)" by simp
    have "lastNewline wc = - 1 \<Longrightarrow> 0 < br"
      using clip_True [OF c] scan_lines_start(3) [OF sc assms(2)] by auto
    with l range assms(2) show ?thesis unfolding p' by (cases "br = 0") auto
  next
    case False
    with cl have c: "clip (size' wc) (maxSize wc) ln br0 = (br, False)" by simp
    have "0 < br" using clip_False [OF c] scan_lines_start(1) [OF sc assms(2)] by simp
    with assms(2) show ?thesis unfolding p' by auto
  qed
qed

termination Write_loop
proof (relation "measures [\<lambda>(wc, p, bw, w). length p,
    \<lambda>(wc, p, bw, w). if lastNewline wc = - 1 then 0 else 1]")
  show "wf (measures [\<lambda>(wc, p, bw, w). length p,
    \<lambda>(wc :: writeCloser, p :: byte list, bw :: int, w :: world).
       if lastNewline wc = - 1 then 0 else 1])"
    by simp
next
  fix wc wc' :: writeCloser and p p' :: "byte list" and bw bw' :: int and w w' :: world
  assume "0 < length p" and "Write_chunk wc p bw w = Again wc' p' bw' w'"
  then have "length p' < length p \<or>
         (length p' = length p \<and> lastNewline wc \<noteq> - 1 \<and> lastNewline wc' = - 1)"
    using Write_chunk_decrease [of wc p bw w wc' p' bw' w'] by simp
  then show "((wc', p', bw', w'), wc, p, bw, w)
      \<in> measures [\<lambda>(wc, p, bw, w). length p,
          \<lambda>(wc, p, bw, w). if lastNewline wc = - 1 then 0 else 1]"
    by auto
qed

declare Write_loop.simps [simp del]

text \<open>
  \<^verbatim>\<open>Write\<close>.  The test of \<^verbatim>\<open>wc.writeErr\<close> returns before the deferred function
  that saves the error is set up; every later return, and a panic, runs that function
  with the value \<open>err\<close> has then.
\<close>

definition Write :: "writeCloser \<Rightarrow> byte list \<Rightarrow> world \<Rightarrow> write_result \<times> writeCloser \<times> world" where
  "Write wc p w =
     (case writeErr wc of
        Some e \<Rightarrow> (Returned 0 (Some (ErrPrevious e)), wc, w)
      | None \<Rightarrow>
          if closed wc then
            (Returned 0 (Some ErrWriterClosed), wc\<lparr>writeErr := Some ErrWriterClosed\<rparr>, w)
          else
            (case Write_loop wc p 0 w of
               (Returned bw err, wc', w') \<Rightarrow> (Returned bw err, wc'\<lparr>writeErr := err\<rparr>, w')
             | (Panicked, wc', w') \<Rightarrow> (Panicked, wc'\<lparr>writeErr := None\<rparr>, w')))"

subsection \<open>Close\<close>

definition Close :: "writeCloser \<Rightarrow> world \<Rightarrow> error option \<times> writeCloser \<times> world" where
  "Close wc w =
     (if \<not> closed wc then
        (case file_Close w of
           (Some e, w') \<Rightarrow> (Some e, wc, w')
         | (None, w') \<Rightarrow> (None, wc\<lparr>closed := True\<rparr>, w'))
      else (None, wc, w))"

subsection \<open>Open\<close>

text \<open>
  "determine last newline position within file by reading backwards": the loop of
  \<^verbatim>\<open>Open\<close>, from \<open>off\<close> and \<open>bufSz\<close>, with \<open>bufExp\<close> the constant 13 of the source.
  The result is the value of \<open>lastNewline\<close> after the loop.  The slice
  \<^verbatim>\<open>buf[:bufSz]\<close> of the buffer of 8 KB is in range: \<open>bufSz\<close> is at most 8192
  (\<open>first_window\<close> below).
\<close>

abbreviation bufExp :: nat where
  "bufExp \<equiv> 13"

function read_backwards :: "int \<Rightarrow> int \<Rightarrow> world \<Rightarrow> (error + int) \<times> world" where
  "read_backwards off bufSz w =
     (if off \<ge> 0 then
        (case ReadAt bufSz off w of
           (buf, Some e, w1) \<Rightarrow> (case file_Close w1 of (e', w2) \<Rightarrow> (Inl e, w2))
         | (buf, None, w1) \<Rightarrow>
             (let i = LastIndexByte buf NL
              in if i \<noteq> - 1 then (Inr (off + i), w1)
                 else read_backwards (off - push_bit bufExp 1) (push_bit bufExp 1) w1))
      else (Inr (- 1), w))"
  by pat_completeness auto
termination
  by (relation "measure (\<lambda>(off, bufSz, w). nat (off + 1))") auto

declare read_backwards.simps [simp del]

definition Open ::
  "string \<Rightarrow> nat \<Rightarrow> int \<Rightarrow> int \<Rightarrow> world \<Rightarrow> (error + writeCloser) \<times> world" where
  "Open pth prm mxs mxf w =
     (if mxs < 1 then (Inl ErrMaxSize, w)
      else if mxf < 1 then (Inl ErrMaxFiles, w)
      else
        (case Lstat_path w of
           (st, w1) \<Rightarrow>
             (case (case st of
                      Inl e \<Rightarrow> if \<not> IsNotExist e then Inl e else Inr 0
                    | Inr (regular, sz) \<Rightarrow> if \<not> regular then Inl ErrNotRegular else Inr sz) of
                Inl e \<Rightarrow> (Inl e, w1)
              | Inr sz \<Rightarrow>
                  (case OpenFile_path prm w1 of
                     (Some e, w2) \<Rightarrow> (Inl e, w2)
                   | (None, w2) \<Rightarrow>
                       (let off = push_bit bufExp (drop_bit bufExp (sz - 1));
                            bufSz = sz - off
                        in case read_backwards off bufSz w2 of
                             (Inl e, w3) \<Rightarrow> (Inl e, w3)
                           | (Inr ln, w3) \<Rightarrow>
                               (Inr \<lparr>path = pth, perm = prm, maxSize = mxs, maxFiles = mxf,
                                      size' = sz, lastNewline = ln, closed = False,
                                      writeErr = None\<rparr>,
                                w3))))))"

subsection \<open>The state of a writer\<close>

text \<open>
  What holds of a writer and the file between calls: \<^verbatim>\<open>wc.size\<close> is the length of
  the file, and \<^verbatim>\<open>wc.lastNewline\<close> is \<open>-1\<close> or the offset of a newline of the file.
\<close>

definition wc_inv :: "writeCloser \<Rightarrow> world \<Rightarrow> bool" where
  "wc_inv wc w \<longleftrightarrow>
     size' wc = int (length (content w)) \<and>
     (lastNewline wc \<noteq> - 1 \<longrightarrow>
        0 \<le> lastNewline wc \<and> lastNewline wc < size' wc \<and>
        content w ! nat (lastNewline wc) = NL)"

text \<open>
  The bound that the cut of \<^verbatim>\<open>Write\<close> relies on: with a recorded newline the file
  is not longer than \<open>max (wc.maxSize, wc.lastNewline + 1)\<close>.
\<close>

definition within_limit :: "writeCloser \<Rightarrow> bool" where
  "within_limit wc \<longleftrightarrow>
     (lastNewline wc \<noteq> - 1 \<longrightarrow> size' wc \<le> max (maxSize wc) (lastNewline wc + 1))"

section \<open>Evaluation\<close>

text \<open>
  The definitions of the file operations and of the methods, for the evaluation of the
  model on concrete files.
\<close>

lemmas prim_defs = Lstat_gz_def Remove_gz_def Rename_gz_def OpenFile_gz_def feed_gz_def
  set_finished_def CopyN_gz_def gw_Close_def w_Close_def Seek0_def Copy_section_def
  Truncate_def WriteAt_def ReadAt_def file_Close_def Lstat_path_def OpenFile_path_def
  fault_now_def step_def content_def write_at_def no_faults_def fault_at_def

lemmas run_defs = Open_def Write_def Close_def rotate'_def copy_to_gz_def
  copy_to_beginning_def clip_def Write_chunk_def Write_loop.simps scan_lines.simps
  read_backwards.simps highest_gz.simps delete_expired.simps move_up.simps
  copy_window.simps Let_def

section \<open>The sticky error, the closed writer and Close\<close>

text \<open>
  An error that \<^verbatim>\<open>Write\<close> returns is sticky.  Once a call has returned an error,
  whether it comes from the write or from a step of the rotation that \<^verbatim>\<open>rotate\<close>
  reports, the writer holds a failure \<open>s\<close> (the error returned, when none was held
  before).  Every later call of \<^verbatim>\<open>Write\<close>, in any state \<open>v\<close> of the file system,
  returns 0 bytes and the error derived from \<open>s\<close> and leaves the writer and the file
  system as they are, the count of file operations included: it does no file I/O and
  does not clear the failure.  \<^verbatim>\<open>Close\<close> does not clear it either.
\<close>

lemma Write_sticky_error:
  "Write wc p w = (Returned bw (Some e), wc', w') \<Longrightarrow>
     (\<exists>s. writeErr wc' = Some s \<and> (writeErr wc = None \<longrightarrow> s = e) \<and>
          Write wc' q v = (Returned 0 (Some (ErrPrevious s)), wc', v) \<and>
          writeErr (fst (snd (Close wc' v))) = Some s)"
  by (auto simp: Write_def Close_def
      split: option.splits if_splits prod.splits write_result.splits)

text \<open>
  An instance: with \<open>maxSize = 5\<close> the write of \<open>"ab\ncd\nef"\<close> stores five bytes and
  starts a rotation, whose first step fails; the next write returns the sticky error.
\<close>

lemma Write_sticky_error_instance:
  "Write \<lparr>path = ''logfile'', perm = 384, maxSize = 5, maxFiles = 3, size' = 0,
           lastNewline = - 1, closed = False, writeErr = None\<rparr>
     [97, 98, 10, 99, 100, 10, 101, 102]
     \<lparr>target = Regular [], archives = fmempty, handle_open = True, cursor = 0,
      io_count = 0, faults = fault_at 1 (Fail 5 0)\<rparr>
   = (Returned 5 (Some (Errno 5)),
      \<lparr>path = ''logfile'', perm = 384, maxSize = 5, maxFiles = 3, size' = 5,
       lastNewline = 2, closed = False, writeErr = Some (Errno 5)\<rparr>,
      \<lparr>target = Regular [97, 98, 10, 99, 100], archives = fmempty, handle_open = True,
       cursor = 0, io_count = 2, faults = fault_at 1 (Fail 5 0)\<rparr>)
   \<and> Write \<lparr>path = ''logfile'', perm = 384, maxSize = 5, maxFiles = 3, size' = 5,
           lastNewline = 2, closed = False, writeErr = Some (Errno 5)\<rparr>
     [120]
     \<lparr>target = Regular [97, 98, 10, 99, 100], archives = fmempty, handle_open = True,
       cursor = 0, io_count = 2, faults = fault_at 1 (Fail 5 0)\<rparr>
   = (Returned 0 (Some (ErrPrevious (Errno 5))),
      \<lparr>path = ''logfile'', perm = 384, maxSize = 5, maxFiles = 3, size' = 5,
       lastNewline = 2, closed = False, writeErr = Some (Errno 5)\<rparr>,
      \<lparr>target = Regular [97, 98, 10, 99, 100], archives = fmempty, handle_open = True,
       cursor = 0, io_count = 2, faults = fault_at 1 (Fail 5 0)\<rparr>)"
proof -
  have h: "Write \<lparr>path = ''logfile'', perm = 384, maxSize = 5, maxFiles = 3, size' = 0,
           lastNewline = - 1, closed = False, writeErr = None\<rparr>
     [97, 98, 10, 99, 100, 10, 101, 102]
     \<lparr>target = Regular [], archives = fmempty, handle_open = True, cursor = 0,
      io_count = 0, faults = fault_at 1 (Fail 5 0)\<rparr>
   = (Returned 5 (Some (Errno 5)),
      \<lparr>path = ''logfile'', perm = 384, maxSize = 5, maxFiles = 3, size' = 5,
       lastNewline = 2, closed = False, writeErr = Some (Errno 5)\<rparr>,
      \<lparr>target = Regular [97, 98, 10, 99, 100], archives = fmempty, handle_open = True,
       cursor = 0, io_count = 2, faults = fault_at 1 (Fail 5 0)\<rparr>)"
    by (simp add: run_defs prim_defs)
  from Write_sticky_error [OF h, of "[120]"
      "\<lparr>target = Regular [97, 98, 10, 99, 100], archives = fmempty, handle_open = True,
       cursor = 0, io_count = 2, faults = fault_at 1 (Fail 5 0)\<rparr>"]
  show ?thesis using h by auto
qed

text \<open>
  Claim C8, as the code has it.  A call of \<^verbatim>\<open>Write\<close> on a closed writer fails and
  leaves the file system untouched, but \<^verbatim>\<open>wc.writeErr\<close> is looked at first: with a
  stored failure the call returns the error derived from it, and only without one does
  it return the "closed" error, which then becomes the stored failure.
\<close>

theorem Write_closed:
  "closed wc \<Longrightarrow>
   Write wc p w =
     (Returned 0
        (Some (case writeErr wc of None \<Rightarrow> ErrWriterClosed | Some e \<Rightarrow> ErrPrevious e)),
      wc\<lparr>writeErr := Some (case writeErr wc of None \<Rightarrow> ErrWriterClosed | Some e \<Rightarrow> e)\<rparr>,
      w)"
  by (simp add: Write_def split: option.splits)

theorem Write_closed_witness:
  "Write \<lparr>path = ''logfile'', perm = 384, maxSize = 5, maxFiles = 3, size' = 0,
          lastNewline = - 1, closed = True, writeErr = None\<rparr>
     [120]
     \<lparr>target = Regular [], archives = fmempty, handle_open = False, cursor = 0,
      io_count = 3, faults = no_faults\<rparr>
   = (Returned 0 (Some ErrWriterClosed),
      \<lparr>path = ''logfile'', perm = 384, maxSize = 5, maxFiles = 3, size' = 0,
       lastNewline = - 1, closed = True, writeErr = Some ErrWriterClosed\<rparr>,
      \<lparr>target = Regular [], archives = fmempty, handle_open = False, cursor = 0,
       io_count = 3, faults = no_faults\<rparr>)"
  using Write_closed [of "\<lparr>path = ''logfile'', perm = 384, maxSize = 5, maxFiles = 3,
          size' = 0, lastNewline = - 1, closed = True, writeErr = None\<rparr>" "[120]"
      "\<lparr>target = Regular [], archives = fmempty, handle_open = False, cursor = 0,
        io_count = 3, faults = no_faults\<rparr>"]
  by simp

text \<open>
  The claim as stated fails: a write of \<open>"x"\<close> that the file system rejects leaves the
  failure in the writer; the writer is then closed; the next write does not return the
  "closed" error but the error derived from the stored failure.
\<close>

theorem Write_closed_counterexample:
  "Write \<lparr>path = ''logfile'', perm = 384, maxSize = 5, maxFiles = 3, size' = 0,
          lastNewline = - 1, closed = False, writeErr = None\<rparr>
     [120]
     \<lparr>target = Regular [], archives = fmempty, handle_open = True, cursor = 0,
      io_count = 0, faults = fault_at 0 (Fail 28 0)\<rparr>
   = (Returned 0 (Some (Errno 28)),
      \<lparr>path = ''logfile'', perm = 384, maxSize = 5, maxFiles = 3, size' = 0,
       lastNewline = - 1, closed = False, writeErr = Some (Errno 28)\<rparr>,
      \<lparr>target = Regular [], archives = fmempty, handle_open = True, cursor = 0,
       io_count = 1, faults = fault_at 0 (Fail 28 0)\<rparr>)
   \<and> Close \<lparr>path = ''logfile'', perm = 384, maxSize = 5, maxFiles = 3, size' = 0,
       lastNewline = - 1, closed = False, writeErr = Some (Errno 28)\<rparr>
      \<lparr>target = Regular [], archives = fmempty, handle_open = True, cursor = 0,
       io_count = 1, faults = fault_at 0 (Fail 28 0)\<rparr>
   = (None,
      \<lparr>path = ''logfile'', perm = 384, maxSize = 5, maxFiles = 3, size' = 0,
       lastNewline = - 1, closed = True, writeErr = Some (Errno 28)\<rparr>,
      \<lparr>target = Regular [], archives = fmempty, handle_open = False, cursor = 0,
       io_count = 2, faults = fault_at 0 (Fail 28 0)\<rparr>)
   \<and> fst (Write \<lparr>path = ''logfile'', perm = 384, maxSize = 5, maxFiles = 3, size' = 0,
       lastNewline = - 1, closed = True, writeErr = Some (Errno 28)\<rparr>
      [120]
      \<lparr>target = Regular [], archives = fmempty, handle_open = False, cursor = 0,
       io_count = 2, faults = fault_at 0 (Fail 28 0)\<rparr>)
     = Returned 0 (Some (ErrPrevious (Errno 28)))
   \<and> ErrPrevious (Errno 28) \<noteq> ErrWriterClosed"
  by (simp add: run_defs prim_defs)

text \<open>
  Claim C9, as the code has it.  On a writer marked closed, \<^verbatim>\<open>Close\<close> is a no-op: it
  returns no error and leaves the writer and the file system as they are, the count of
  file operations included.  On a writer not marked closed it is one call of
  \<^verbatim>\<open>wc.file.Close()\<close>, whose error it returns: the handle is closed afterwards, and
  the writer is marked closed exactly when that call returns no error, which it does
  exactly when the handle was open and the environment lets the close through.  So after
  a call that returns no error every later call is a no-op, whereas a call whose close of
  the handle fails returns that error and leaves the writer as it was, not marked closed:
  the next call closes the handle again and returns the error of that.
\<close>

theorem Close_idempotent:
  "Close wc w = (r, wc', w') \<Longrightarrow>
     (closed wc' \<longleftrightarrow> closed wc \<or> r = None) \<and>
     (closed wc' \<longrightarrow> Close wc' w' = (None, wc', w')) \<and>
     (r \<noteq> None \<longrightarrow> wc' = wc \<and> \<not> closed wc \<and> io_count w' = Suc (io_count w)) \<and>
     (closed wc \<longrightarrow> r = None \<and> wc' = wc \<and> w' = w) \<and>
     (\<not> closed wc \<longrightarrow>
        file_Close w = (r, w') \<and> \<not> handle_open w' \<and> io_count w' = Suc (io_count w) \<and>
        wc' = (if r = None then wc\<lparr>closed := True\<rparr> else wc) \<and>
        (r = None \<longleftrightarrow> handle_open w \<and> fault_now w = None)) \<and>
     (r \<noteq> None \<longrightarrow> Close wc' w' = (Some ErrClosed, wc', step w'))"
  by (auto simp: Close_def file_Close_def step_def
      split: if_splits option.splits prod.splits)

text \<open>
  Three instances: the close of an open writer, the close of the writer that this
  leaves, and a close that the environment rejects, with the call that follows it.
\<close>

theorem Close_idempotent_witness:
  "Close \<lparr>path = ''logfile'', perm = 384, maxSize = 5, maxFiles = 3, size' = 0,
          lastNewline = - 1, closed = False, writeErr = None\<rparr>
     \<lparr>target = Regular [], archives = fmempty, handle_open = True, cursor = 0,
      io_count = 0, faults = no_faults\<rparr>
   = (None,
      \<lparr>path = ''logfile'', perm = 384, maxSize = 5, maxFiles = 3, size' = 0,
       lastNewline = - 1, closed = True, writeErr = None\<rparr>,
      \<lparr>target = Regular [], archives = fmempty, handle_open = False, cursor = 0,
       io_count = 1, faults = no_faults\<rparr>)
   \<and> Close \<lparr>path = ''logfile'', perm = 384, maxSize = 5, maxFiles = 3, size' = 0,
       lastNewline = - 1, closed = True, writeErr = None\<rparr>
      \<lparr>target = Regular [], archives = fmempty, handle_open = False, cursor = 0,
       io_count = 1, faults = no_faults\<rparr>
   = (None,
      \<lparr>path = ''logfile'', perm = 384, maxSize = 5, maxFiles = 3, size' = 0,
       lastNewline = - 1, closed = True, writeErr = None\<rparr>,
      \<lparr>target = Regular [], archives = fmempty, handle_open = False, cursor = 0,
       io_count = 1, faults = no_faults\<rparr>)
   \<and> fst (Close \<lparr>path = ''logfile'', perm = 384, maxSize = 5, maxFiles = 3, size' = 0,
          lastNewline = - 1, closed = False, writeErr = None\<rparr>
     \<lparr>target = Regular [], archives = fmempty, handle_open = True, cursor = 0,
      io_count = 0, faults = fault_at 0 (Fail 5 0)\<rparr>) \<noteq> None
   \<and> file_Close \<lparr>target = Regular [], archives = fmempty, handle_open = True, cursor = 0,
      io_count = 0, faults = fault_at 0 (Fail 5 0)\<rparr>
   = (Some (Errno 5),
      \<lparr>target = Regular [], archives = fmempty, handle_open = False, cursor = 0,
       io_count = 1, faults = fault_at 0 (Fail 5 0)\<rparr>)
   \<and> Close \<lparr>path = ''logfile'', perm = 384, maxSize = 5, maxFiles = 3, size' = 0,
          lastNewline = - 1, closed = False, writeErr = None\<rparr>
     \<lparr>target = Regular [], archives = fmempty, handle_open = False, cursor = 0,
      io_count = 1, faults = fault_at 0 (Fail 5 0)\<rparr>
   = (Some ErrClosed,
      \<lparr>path = ''logfile'', perm = 384, maxSize = 5, maxFiles = 3, size' = 0,
       lastNewline = - 1, closed = False, writeErr = None\<rparr>,
      \<lparr>target = Regular [], archives = fmempty, handle_open = False, cursor = 0,
       io_count = 2, faults = fault_at 0 (Fail 5 0)\<rparr>)"
proof -
  let ?open = "\<lparr>path = ''logfile'', perm = 384, maxSize = 5, maxFiles = 3, size' = 0,
          lastNewline = - 1, closed = False, writeErr = None\<rparr>"
  let ?shut = "\<lparr>path = ''logfile'', perm = 384, maxSize = 5, maxFiles = 3, size' = 0,
          lastNewline = - 1, closed = True, writeErr = None\<rparr>"
  let ?w = "\<lparr>target = Regular [], archives = fmempty, handle_open = True, cursor = 0,
      io_count = 0, faults = no_faults\<rparr>"
  let ?w' = "\<lparr>target = Regular [], archives = fmempty, handle_open = False, cursor = 0,
      io_count = 1, faults = no_faults\<rparr>"
  let ?v = "\<lparr>target = Regular [], archives = fmempty, handle_open = True, cursor = 0,
      io_count = 0, faults = fault_at 0 (Fail 5 0)\<rparr>"
  let ?v' = "\<lparr>target = Regular [], archives = fmempty, handle_open = False, cursor = 0,
      io_count = 1, faults = fault_at 0 (Fail 5 0)\<rparr>"
  have h: "Close ?open ?w = (None, ?shut, ?w')"
    by (simp add: run_defs prim_defs)
  have g: "Close ?shut ?w' = (None, ?shut, ?w')"
    by (simp add: run_defs prim_defs)
  have f: "Close ?open ?v = (Some (Errno 5), ?open, ?v')"
    by (simp add: run_defs prim_defs)
  from Close_idempotent [OF h] Close_idempotent [OF g] Close_idempotent [OF f] h f
  show ?thesis by (simp add: step_def)
qed

text \<open>
  The claim as stated fails: when the close of the handle fails, the writer is not marked
  closed, and the second call of \<^verbatim>\<open>Close\<close> is not a no-op: it closes the handle
  again and returns the error of that.
\<close>

theorem Close_idempotent_counterexample:
  "Close \<lparr>path = ''logfile'', perm = 384, maxSize = 5, maxFiles = 3, size' = 0,
          lastNewline = - 1, closed = False, writeErr = None\<rparr>
     \<lparr>target = Regular [], archives = fmempty, handle_open = True, cursor = 0,
      io_count = 0, faults = fault_at 0 (Fail 5 0)\<rparr>
   = (Some (Errno 5),
      \<lparr>path = ''logfile'', perm = 384, maxSize = 5, maxFiles = 3, size' = 0,
       lastNewline = - 1, closed = False, writeErr = None\<rparr>,
      \<lparr>target = Regular [], archives = fmempty, handle_open = False, cursor = 0,
       io_count = 1, faults = fault_at 0 (Fail 5 0)\<rparr>)
   \<and> Close \<lparr>path = ''logfile'', perm = 384, maxSize = 5, maxFiles = 3, size' = 0,
       lastNewline = - 1, closed = False, writeErr = None\<rparr>
      \<lparr>target = Regular [], archives = fmempty, handle_open = False, cursor = 0,
       io_count = 1, faults = fault_at 0 (Fail 5 0)\<rparr>
   = (Some ErrClosed,
      \<lparr>path = ''logfile'', perm = 384, maxSize = 5, maxFiles = 3, size' = 0,
       lastNewline = - 1, closed = False, writeErr = None\<rparr>,
      \<lparr>target = Regular [], archives = fmempty, handle_open = False, cursor = 0,
       io_count = 2, faults = fault_at 0 (Fail 5 0)\<rparr>)"
  by (simp add: run_defs prim_defs)

section \<open>Defects\<close>

text \<open>
  Claim C1.  The cut of the chunk is \<open>br = max - wc.size\<close>, which is negative when the
  file is already longer than \<open>max (wc.maxSize, wc.lastNewline + 1)\<close>.  A writer opened
  on the ten bytes \<open>"a\nbbbbbbbb"\<close> with \<open>maxSize = 5\<close> is in that state: the file is
  over the limit and holds a newline, which is not its last byte.  The write of \<open>"x"\<close>
  then does not end at the boundary with a rotation: \<open>br\<close> is \<open>-5\<close> and the slice
  \<^verbatim>\<open>p[:br]\<close> panics, with nothing written and no rotation.
\<close>

theorem Write_panics_after_Open_of_long_file:
  "Open ''logfile'' 384 5 3
     \<lparr>target = Regular [97, 10, 98, 98, 98, 98, 98, 98, 98, 98], archives = fmempty,
      handle_open = False, cursor = 0, io_count = 0, faults = no_faults\<rparr>
   = (Inr \<lparr>path = ''logfile'', perm = 384, maxSize = 5, maxFiles = 3, size' = 10,
           lastNewline = 1, closed = False, writeErr = None\<rparr>,
      \<lparr>target = Regular [97, 10, 98, 98, 98, 98, 98, 98, 98, 98], archives = fmempty,
       handle_open = True, cursor = 0, io_count = 3, faults = no_faults\<rparr>)
   \<and> scan_lines 10 5 1 [120] 0 = (1, 1)
   \<and> clip 10 5 1 1 = (- 5, True)
   \<and> Write \<lparr>path = ''logfile'', perm = 384, maxSize = 5, maxFiles = 3, size' = 10,
            lastNewline = 1, closed = False, writeErr = None\<rparr>
       [120]
       \<lparr>target = Regular [97, 10, 98, 98, 98, 98, 98, 98, 98, 98], archives = fmempty,
        handle_open = True, cursor = 0, io_count = 3, faults = no_faults\<rparr>
     = (Panicked,
        \<lparr>path = ''logfile'', perm = 384, maxSize = 5, maxFiles = 3, size' = 10,
         lastNewline = 1, closed = False, writeErr = None\<rparr>,
        \<lparr>target = Regular [97, 10, 98, 98, 98, 98, 98, 98, 98, 98], archives = fmempty,
         handle_open = True, cursor = 0, io_count = 3, faults = no_faults\<rparr>)"
  by (simp add: run_defs prim_defs)

text \<open>
  Claim C2.  The errors of \<^verbatim>\<open>gw.Close()\<close> and \<^verbatim>\<open>w.Close()\<close> are lost in
  \<^verbatim>\<open>rotate\<close>.  Here the file holds \<open>"ab\ncd"\<close> with the newline at offset 2, there is
  no archive, and the fifth file operation of the rotation, \<^verbatim>\<open>gw.Close()\<close>, fails
  (error 28, no space left).  The rotation returns no error, cuts the file down to
  \<open>"cd"\<close> and updates the writer, and archive 1 is left as a stream that was never
  finished: it does not hold the compressed \<open>"ab\n"\<close>.
\<close>

theorem rotate_loses_error_of_gzip_Close:
  "rotate' \<lparr>path = ''logfile'', perm = 384, maxSize = 5, maxFiles = 3, size' = 5,
            lastNewline = 2, closed = False, writeErr = None\<rparr>
     \<lparr>target = Regular [97, 98, 10, 99, 100], archives = fmempty, handle_open = True,
      cursor = 0, io_count = 0, faults = fault_at 4 (Fail 28 0)\<rparr>
   = (None,
      \<lparr>path = ''logfile'', perm = 384, maxSize = 5, maxFiles = 3, size' = 2,
       lastNewline = - 1, closed = False, writeErr = None\<rparr>,
      \<lparr>target = Regular [99, 100],
       archives = fmupd 1 (GzFile [97, 98, 10] False False) fmempty,
       handle_open = True, cursor = 2, io_count = 9, faults = fault_at 4 (Fail 28 0)\<rparr>)
   \<and> gw_Close 1
       \<lparr>target = Regular [97, 98, 10, 99, 100],
        archives = fmupd 1 (GzFile [97, 98, 10] False False) fmempty,
        handle_open = True, cursor = 3, io_count = 4, faults = fault_at 4 (Fail 28 0)\<rparr>
     = (Some (Errno 28),
        \<lparr>target = Regular [97, 98, 10, 99, 100],
         archives = fmupd 1 (GzFile [97, 98, 10] False False) fmempty,
         handle_open = True, cursor = 3, io_count = 5, faults = fault_at 4 (Fail 28 0)\<rparr>)"
  by (simp add: run_defs prim_defs)

text \<open>
  Claim C7.  A step of the rotation that fails does not always stop the writer.  With
  \<open>maxSize = 5\<close> the write of \<open>"ab\ncde"\<close> to an empty file stores \<open>"ab\ncd"\<close> and
  rotates; \<^verbatim>\<open>gw.Close()\<close>, the sixth file operation of the call, fails (error 28, no
  space left), and its error is lost in \<^verbatim>\<open>rotate\<close>.  The call goes on, writes
  \<open>"e"\<close> and returns \<open>(6, nil)\<close>; \<^verbatim>\<open>wc.writeErr\<close> stays \<open>nil\<close>.  The next call
  of \<^verbatim>\<open>Write\<close> does not return an error derived from a stored failure: it writes to
  the file and returns \<open>(1, nil)\<close>.
\<close>

theorem Write_goes_on_after_failed_gzip_Close:
  "Write \<lparr>path = ''logfile'', perm = 384, maxSize = 5, maxFiles = 3, size' = 0,
          lastNewline = - 1, closed = False, writeErr = None\<rparr>
     [97, 98, 10, 99, 100, 101]
     \<lparr>target = Regular [], archives = fmempty, handle_open = True, cursor = 0,
      io_count = 0, faults = fault_at 5 (Fail 28 0)\<rparr>
   = (Returned 6 None,
      \<lparr>path = ''logfile'', perm = 384, maxSize = 5, maxFiles = 3, size' = 3,
       lastNewline = - 1, closed = False, writeErr = None\<rparr>,
      \<lparr>target = Regular [99, 100, 101],
       archives = fmupd 1 (GzFile [97, 98, 10] False False) fmempty,
       handle_open = True, cursor = 2, io_count = 11, faults = fault_at 5 (Fail 28 0)\<rparr>)
   \<and> gw_Close 1
       \<lparr>target = Regular [97, 98, 10, 99, 100],
        archives = fmupd 1 (GzFile [97, 98, 10] False False) fmempty,
        handle_open = True, cursor = 3, io_count = 5, faults = fault_at 5 (Fail 28 0)\<rparr>
     = (Some (Errno 28),
        \<lparr>target = Regular [97, 98, 10, 99, 100],
         archives = fmupd 1 (GzFile [97, 98, 10] False False) fmempty,
         handle_open = True, cursor = 3, io_count = 6, faults = fault_at 5 (Fail 28 0)\<rparr>)
   \<and> Write \<lparr>path = ''logfile'', perm = 384, maxSize = 5, maxFiles = 3, size' = 3,
          lastNewline = - 1, closed = False, writeErr = None\<rparr>
     [120]
     \<lparr>target = Regular [99, 100, 101],
      archives = fmupd 1 (GzFile [97, 98, 10] False False) fmempty,
      handle_open = True, cursor = 2, io_count = 11, faults = fault_at 5 (Fail 28 0)\<rparr>
   = (Returned 1 None,
      \<lparr>path = ''logfile'', perm = 384, maxSize = 5, maxFiles = 3, size' = 4,
       lastNewline = - 1, closed = False, writeErr = None\<rparr>,
      \<lparr>target = Regular [99, 100, 101, 120],
       archives = fmupd 1 (GzFile [97, 98, 10] False False) fmempty,
       handle_open = True, cursor = 2, io_count = 12, faults = fault_at 5 (Fail 28 0)\<rparr>)"
  by (simp add: run_defs prim_defs)

section \<open>The count of bytes written\<close>

lemma Write_chunk_Stop:
  "Write_chunk wc p bw w = Stop (res, wc', w') \<Longrightarrow> res \<noteq> Returned n None"
  by (auto simp: Write_chunk_def Let_def split: prod.splits if_splits option.splits)

lemma Write_loop_count:
  "Write_loop wc p bw w = (Returned n None, wc', w') \<Longrightarrow> n = bw + int (length p)"
proof (induction wc p bw w rule: Write_loop.induct)
  case (1 wc p bw w)
  show ?case
  proof (cases "p = []")
    case True
    with "1.prems" show ?thesis by (simp add: Write_loop.simps)
  next
    case False
    show ?thesis
    proof (cases "Write_chunk wc p bw w")
      case (Stop r)
      with False "1.prems" have "Write_chunk wc p bw w = Stop (Returned n None, wc', w')"
        by (simp add: Write_loop.simps [of wc p])
      from Write_chunk_Stop [OF this, of n] show ?thesis by simp
    next
      case (Again wc1 p1 bw1 w1)
      with False "1.prems" have "Write_loop wc1 p1 bw1 w1 = (Returned n None, wc', w')"
        by (simp add: Write_loop.simps [of wc p])
      with "1.IH" [OF _ Again] False have n: "n = bw1 + int (length p1)" by simp
      from Again obtain br where "0 \<le> br" "br \<le> int (length p)"
        "p1 = drop (nat br) p" "bw1 = bw + br"
        by (rule Write_chunk_Again)
      with n show ?thesis by simp
    qed
  qed
qed

text \<open>
  Claim C10.  A call of \<^verbatim>\<open>Write\<close> that returns a nil error returns the length of its
  input as the count of bytes written; on an open writer without a stored failure, the
  write of an empty input returns 0 and no error, and changes nothing.
\<close>

theorem Write_count:
  "(Write wc p w = (Returned bw None, wc', w') \<longrightarrow> bw = int (length p)) \<and>
   (writeErr wc = None \<and> \<not> closed wc \<longrightarrow> Write wc [] w = (Returned 0 None, wc, w))"
proof (intro conjI impI)
  assume r: "Write wc p w = (Returned bw None, wc', w')"
  then obtain wc1 where "Write_loop wc p 0 w = (Returned bw None, wc1, w')"
    by (auto simp: Write_def split: option.splits if_splits prod.splits write_result.splits)
  from Write_loop_count [OF this] show "bw = int (length p)" by simp
next
  assume "writeErr wc = None \<and> \<not> closed wc"
  moreover from this have "wc\<lparr>writeErr := None\<rparr> = wc" by (cases wc) simp
  ultimately show "Write wc [] w = (Returned 0 None, wc, w)"
    by (simp add: Write_def Write_loop.simps)
qed

theorem Write_count_witness:
  "fst (Write \<lparr>path = ''logfile'', perm = 384, maxSize = 5, maxFiles = 3, size' = 0,
          lastNewline = - 1, closed = False, writeErr = None\<rparr>
     [97, 98, 10, 99, 100, 10, 101, 102, 10, 103]
     \<lparr>target = Regular [], archives = fmempty, handle_open = True, cursor = 0,
      io_count = 0, faults = no_faults\<rparr>)
   = Returned 10 None
   \<and> (10 :: int) = int (length [97, 98, 10, 99, 100, 10, 101, 102, 10, 103 :: byte])
   \<and> Write \<lparr>path = ''logfile'', perm = 384, maxSize = 5, maxFiles = 3, size' = 0,
          lastNewline = - 1, closed = False, writeErr = None\<rparr>
     []
     \<lparr>target = Regular [], archives = fmempty, handle_open = True, cursor = 0,
      io_count = 0, faults = no_faults\<rparr>
   = (Returned 0 None,
      \<lparr>path = ''logfile'', perm = 384, maxSize = 5, maxFiles = 3, size' = 0,
          lastNewline = - 1, closed = False, writeErr = None\<rparr>,
      \<lparr>target = Regular [], archives = fmempty, handle_open = True, cursor = 0,
      io_count = 0, faults = no_faults\<rparr>)"
proof -
  let ?wc = "\<lparr>path = ''logfile'', perm = 384, maxSize = 5, maxFiles = 3, size' = 0,
          lastNewline = - 1, closed = False, writeErr = None\<rparr>"
  let ?w = "\<lparr>target = Regular [], archives = fmempty, handle_open = True, cursor = 0,
      io_count = 0, faults = no_faults\<rparr>"
  let ?p = "[97, 98, 10, 99, 100, 10, 101, 102, 10, 103] :: byte list"
  have h: "fst (Write ?wc ?p ?w) = Returned 10 None"
    by (simp add: run_defs prim_defs)
  then have "Write ?wc ?p ?w =
      (Returned 10 None, fst (snd (Write ?wc ?p ?w)), snd (snd (Write ?wc ?p ?w)))"
    by (simp add: prod_eq_iff)
  with Write_count [of ?wc ?p ?w 10 "fst (snd (Write ?wc ?p ?w))"
      "snd (snd (Write ?wc ?p ?w))"] h
  show ?thesis by simp
qed

section \<open>The last newline found by Open\<close>

lemma LastIndexByte_ge: "- 1 \<le> LastIndexByte s c"
  by (induction s) (auto simp: Let_def)

lemma LastIndexByte_less: "LastIndexByte s c < int (length s)"
  by (induction s) (auto simp: Let_def)

lemma LastIndexByte_none_iff: "LastIndexByte s c = - 1 \<longleftrightarrow> c \<notin> set s"
proof (induction s)
  case Nil
  then show ?case by simp
next
  case (Cons b s)
  from LastIndexByte_ge [of s c] have "LastIndexByte s c + 1 \<noteq> - 1" by linarith
  with Cons show ?case by (auto simp: Let_def)
qed

lemma LastIndexByte_last:
  "LastIndexByte s c \<noteq> - 1 \<Longrightarrow>
     s ! nat (LastIndexByte s c) = c \<and> c \<notin> set (drop (nat (LastIndexByte s c) + 1) s)"
proof (induction s)
  case Nil
  then show ?case by simp
next
  case (Cons b s)
  show ?case
  proof (cases "LastIndexByte s c = - 1")
    case True
    with Cons.prems have "b = c" by (auto simp: Let_def split: if_splits)
    with True show ?thesis by (simp add: LastIndexByte_none_iff [symmetric])
  next
    case False
    with LastIndexByte_ge [of s c] have "0 \<le> LastIndexByte s c" by linarith
    then have "nat (LastIndexByte s c + 1) = Suc (nat (LastIndexByte s c))" by linarith
    with False Cons.IH show ?thesis by (simp add: Let_def)
  qed
qed

lemma LastIndexByte_append:
  "LastIndexByte (xs @ ys) c =
     (if LastIndexByte ys c \<noteq> - 1 then int (length xs) + LastIndexByte ys c
      else LastIndexByte xs c)"
  using LastIndexByte_ge [of ys c] by (induction xs) (auto simp: Let_def)

lemma ReadAt_window:
  assumes "handle_open w" and "fault_now w = None" and "0 \<le> off" and "0 \<le> k"
    and "off + k \<le> int (length (content w))"
  shows "ReadAt k off w = (take (nat k) (drop (nat off) (content w)), None, step w)"
  using assms by (simp add: ReadAt_def Let_def)

text \<open>
  The loop, in an environment that lets the reads through: \<open>off\<close> is a multiple of the
  window of 8 KB, the window \<open>[off, off + bufSz)\<close> lies in the file and no newline
  follows it.
\<close>

lemma read_backwards_last:
  assumes "handle_open w" and "\<forall>k\<ge>io_count w. faults w k = None"
    and "off < 0 \<longrightarrow> NL \<notin> set (content w)"
    and "0 \<le> off \<longrightarrow> 0 < bufSz \<and> off + bufSz \<le> int (length (content w)) \<and>
           NL \<notin> set (drop (nat (off + bufSz)) (content w)) \<and> 8192 dvd off"
  shows "\<exists>n. read_backwards off bufSz w =
           (Inr (LastIndexByte (content w) NL), w\<lparr>io_count := io_count w + n\<rparr>)
         \<and> (off < 0 \<longrightarrow> n = 0)"
  using assms
proof (induction off bufSz w rule: read_backwards.induct)
  case (1 off bufSz w)
  let ?bs = "content w"
  show ?case
  proof (cases "0 \<le> off")
    case False
    with "1.prems"(3) have "LastIndexByte ?bs NL = - 1" by (simp add: LastIndexByte_none_iff)
    with False have "read_backwards off bufSz w =
        (Inr (LastIndexByte ?bs NL), w\<lparr>io_count := io_count w + 0\<rparr>)"
      by (simp add: read_backwards.simps)
    then show ?thesis by blast
  next
    case True
    with "1.prems"(4) have pos: "0 < bufSz" and inside: "off + bufSz \<le> int (length ?bs)"
      and rest: "NL \<notin> set (drop (nat (off + bufSz)) ?bs)" and dvd: "8192 dvd off"
      by simp_all
    let ?win = "take (nat bufSz) (drop (nat off) ?bs)"
    from "1.prems"(2) have nf: "fault_now w = None" by (simp add: fault_now_def)
    have rd: "ReadAt bufSz off w = (?win, None, step w)"
      using "1.prems"(1) nf True pos inside by (intro ReadAt_window) simp_all
    have split: "?bs = take (nat off) ?bs @ ?win @ drop (nat (off + bufSz)) ?bs"
    proof -
      have "drop (nat off) ?bs = ?win @ drop (nat bufSz) (drop (nat off) ?bs)"
        by (rule append_take_drop_id [symmetric])
      moreover have "drop (nat bufSz) (drop (nat off) ?bs) = drop (nat (off + bufSz)) ?bs"
        using True pos by (simp add: nat_add_distrib add.commute)
      ultimately have "drop (nat off) ?bs = ?win @ drop (nat (off + bufSz)) ?bs"
        by (simp only:)
      then have "take (nat off) ?bs @ drop (nat off) ?bs =
          take (nat off) ?bs @ ?win @ drop (nat (off + bufSz)) ?bs" by simp
      then show ?thesis by simp
    qed
    have len: "int (length (take (nat off) ?bs)) = off" using True pos inside by simp
    from rest have r: "LastIndexByte (drop (nat (off + bufSz)) ?bs) NL = - 1"
      by (simp add: LastIndexByte_none_iff)
    have whole: "LastIndexByte ?bs NL =
        (if LastIndexByte ?win NL \<noteq> - 1 then off + LastIndexByte ?win NL
         else LastIndexByte (take (nat off) ?bs) NL)"
      by (subst split) (simp only: LastIndexByte_append r len if_False simp_thms)
    show ?thesis
    proof (cases "LastIndexByte ?win NL = - 1")
      case False
      with True rd whole have "read_backwards off bufSz w =
          (Inr (LastIndexByte ?bs NL), w\<lparr>io_count := io_count w + 1\<rparr>)"
        by (simp add: read_backwards.simps [of off bufSz w] Let_def step_def)
      with True show ?thesis by (intro exI [of _ 1]) simp
    next
      case none: True
      then have nowin: "NL \<notin> set ?win" by (simp add: LastIndexByte_none_iff)
      from none have nn: "\<not> LastIndexByte ?win NL \<noteq> - 1" by simp
      have rec: "read_backwards off bufSz w = read_backwards (off - 8192) 8192 (step w)"
        using True rd none by (simp add: read_backwards.simps [of off bufSz w] Let_def)
      have before: "NL \<notin> set (drop (nat off) ?bs)"
      proof -
        have "drop (nat off) ?bs = ?win @ drop (nat bufSz) (drop (nat off) ?bs)"
          by (rule append_take_drop_id [symmetric])
        moreover have "drop (nat bufSz) (drop (nat off) ?bs) = drop (nat (off + bufSz)) ?bs"
          using True pos by (simp add: nat_add_distrib add.commute)
        ultimately have "drop (nat off) ?bs = ?win @ drop (nat (off + bufSz)) ?bs"
          by (simp only:)
        then have "set (drop (nat off) ?bs) =
            set ?win \<union> set (drop (nat (off + bufSz)) ?bs)"
          by (metis set_append)
        with nowin rest show ?thesis by blast
      qed
      have c: "content (step w) = ?bs" by (simp add: step_def content_def)
      have "\<exists>n. read_backwards (off - push_bit bufExp 1) (push_bit bufExp 1) (step w) =
          (Inr (LastIndexByte (content (step w)) NL),
           (step w)\<lparr>io_count := io_count (step w) + n\<rparr>)
          \<and> (off - push_bit bufExp 1 < 0 \<longrightarrow> n = 0)"
      proof (rule "1.IH" [OF True rd [symmetric] refl refl refl nn])
        show "handle_open (step w)" using "1.prems"(1) by (simp add: step_def)
        show "\<forall>k\<ge>io_count (step w). faults (step w) k = None"
          using "1.prems"(2) by (simp add: step_def)
        show "off - push_bit bufExp 1 < 0 \<longrightarrow> NL \<notin> set (content (step w))"
        proof
          assume "off - push_bit bufExp 1 < 0"
          with True dvd have "off = 0" by (auto elim!: dvdE)
          with before show "NL \<notin> set (content (step w))" by (simp add: c)
        qed
        show "0 \<le> off - push_bit bufExp 1 \<longrightarrow>
            0 < push_bit bufExp (1 :: int) \<and>
            off - push_bit bufExp 1 + push_bit bufExp 1 \<le> int (length (content (step w))) \<and>
            NL \<notin> set (drop (nat (off - push_bit bufExp 1 + push_bit bufExp 1))
                        (content (step w))) \<and>
            8192 dvd off - push_bit bufExp 1"
          using before inside pos dvd by (simp add: c)
      qed
      then obtain n where "read_backwards (off - 8192) 8192 (step w) =
          (Inr (LastIndexByte ?bs NL), (step w)\<lparr>io_count := io_count (step w) + n\<rparr>)"
        by (auto simp: c)
      with rec have "read_backwards off bufSz w =
          (Inr (LastIndexByte ?bs NL), w\<lparr>io_count := io_count w + (n + 1)\<rparr>)"
        by (simp add: step_def)
      with True show ?thesis by (intro exI [of _ "n + 1"]) simp
    qed
  qed
qed

lemma first_window:
  fixes sz :: int
  assumes "1 \<le> sz"
  shows "0 \<le> push_bit bufExp (drop_bit bufExp (sz - 1))"
    and "8192 dvd push_bit bufExp (drop_bit bufExp (sz - 1))"
    and "0 < sz - push_bit bufExp (drop_bit bufExp (sz - 1))"
    and "sz - push_bit bufExp (drop_bit bufExp (sz - 1)) \<le> 8192"
proof -
  have eq: "push_bit bufExp (drop_bit bufExp (sz - 1)) = (sz - 1) div 8192 * 8192"
    by (simp add: push_bit_eq_mult drop_bit_eq_div)
  have m: "(sz - 1) div 8192 * 8192 = sz - 1 - (sz - 1) mod 8192"
    by (simp add: minus_mod_eq_div_mult [symmetric])
  have "0 \<le> (sz - 1) mod 8192" "(sz - 1) mod 8192 < 8192" by simp_all
  moreover have "(sz - 1) mod 8192 \<le> sz - 1"
    using assms by (intro zmod_le_nonneg_dividend) simp
  ultimately show "0 \<le> push_bit bufExp (drop_bit bufExp (sz - 1))"
    and "0 < sz - push_bit bufExp (drop_bit bufExp (sz - 1))"
    and "sz - push_bit bufExp (drop_bit bufExp (sz - 1)) \<le> 8192"
    unfolding eq m by linarith+
  show "8192 dvd push_bit bufExp (drop_bit bufExp (sz - 1))"
    unfolding eq by simp
qed

text \<open>
  Claim C5.  In an environment that lets the file operations of \<^verbatim>\<open>Open\<close> through,
  \<^verbatim>\<open>Open\<close> on a regular file of content \<open>bs\<close> returns a writer whose
  \<open>lastNewline\<close> is the offset of the last newline of \<open>bs\<close>, wherever it lies in the
  file: the byte at that offset is a newline and none follows it; it is \<open>-1\<close> when
  \<open>bs\<close> holds no newline.  On an empty file the only file operations are the
  \<^verbatim>\<open>Lstat\<close> and the \<^verbatim>\<open>OpenFile\<close>: nothing is read.
\<close>

theorem Open_last_newline:
  assumes "1 \<le> mxs" and "1 \<le> mxf" and "target w = Regular bs"
    and "\<forall>k\<ge>io_count w. faults w k = None"
  shows "\<exists>wc w'. Open pth prm mxs mxf w = (Inr wc, w') \<and>
           size' wc = int (length bs) \<and>
           lastNewline wc = LastIndexByte bs NL \<and>
           (if NL \<in> set bs
            then 0 \<le> lastNewline wc \<and> lastNewline wc < int (length bs) \<and>
                 bs ! nat (lastNewline wc) = NL \<and>
                 NL \<notin> set (drop (nat (lastNewline wc) + 1) bs)
            else lastNewline wc = - 1) \<and>
           content w' = bs \<and>
           (bs = [] \<longrightarrow> io_count w' = io_count w + 2)"
proof -
  let ?sz = "int (length bs)"
  let ?off = "push_bit bufExp (drop_bit bufExp (?sz - 1))"
  let ?w2 = "step ((step w)\<lparr>handle_open := True, cursor := 0\<rparr>)"
  from assms(4) have nf: "fault_now w = None" "fault_now (step w) = None"
    by (simp_all add: fault_now_def step_def)
  have ls: "Lstat_path w = (Inr (True, ?sz), step w)"
    using assms(3) nf by (simp add: Lstat_path_def)
  have op: "OpenFile_path prm (step w) = (None, ?w2)"
    using assms(3) nf by (simp add: OpenFile_path_def step_def)
  have c: "content ?w2 = bs" using assms(3) by (simp add: content_def step_def)
  have "\<exists>n. read_backwards ?off (?sz - ?off) ?w2 =
           (Inr (LastIndexByte (content ?w2) NL), ?w2\<lparr>io_count := io_count ?w2 + n\<rparr>)
         \<and> (?off < 0 \<longrightarrow> n = 0)"
  proof (rule read_backwards_last)
    show "handle_open ?w2" by (simp add: step_def)
    show "\<forall>k\<ge>io_count ?w2. faults ?w2 k = None" using assms(4) by (simp add: step_def)
    show "?off < 0 \<longrightarrow> NL \<notin> set (content ?w2)"
    proof
      assume neg: "?off < 0"
      have "\<not> 1 \<le> ?sz" using first_window(1) [of ?sz] neg by linarith
      then have "\<not> 0 < length bs" by linarith
      then have "bs = []" by simp
      then show "NL \<notin> set (content ?w2)" unfolding c by simp
    qed
    show "0 \<le> ?off \<longrightarrow> 0 < ?sz - ?off \<and> ?off + (?sz - ?off) \<le> int (length (content ?w2)) \<and>
        NL \<notin> set (drop (nat (?off + (?sz - ?off))) (content ?w2)) \<and> 8192 dvd ?off"
    proof
      assume pos: "0 \<le> ?off"
      have "1 \<le> ?sz"
      proof (rule ccontr)
        assume "\<not> 1 \<le> ?sz"
        then have "\<not> 0 < length bs" by linarith
        then have "bs = []" by simp
        then have "?off = - 8192" by (simp add: push_bit_eq_mult drop_bit_eq_div)
        with pos show False by simp
      qed
      from first_window [OF this] show "0 < ?sz - ?off \<and>
          ?off + (?sz - ?off) \<le> int (length (content ?w2)) \<and>
          NL \<notin> set (drop (nat (?off + (?sz - ?off))) (content ?w2)) \<and> 8192 dvd ?off"
        unfolding c by simp
    qed
  qed
  then obtain n where rb: "read_backwards ?off (?sz - ?off) ?w2 =
           (Inr (LastIndexByte bs NL), ?w2\<lparr>io_count := io_count ?w2 + n\<rparr>)"
    and n: "?off < 0 \<longrightarrow> n = 0"
    unfolding c by blast
  let ?wc = "\<lparr>path = pth, perm = prm, maxSize = mxs, maxFiles = mxf, size' = ?sz,
      lastNewline = LastIndexByte bs NL, closed = False, writeErr = None\<rparr>"
  have res: "Open pth prm mxs mxf w = (Inr ?wc, ?w2\<lparr>io_count := io_count ?w2 + n\<rparr>)"
    using assms(1,2) by (simp add: Open_def ls op rb Let_def)
  have empty: "bs = [] \<longrightarrow> n = 0"
  proof
    assume "bs = []"
    then have "?off = - 8192" by (simp add: push_bit_eq_mult drop_bit_eq_div)
    with n show "n = 0" by simp
  qed
  have last: "if NL \<in> set bs
            then 0 \<le> LastIndexByte bs NL \<and> LastIndexByte bs NL < int (length bs) \<and>
                 bs ! nat (LastIndexByte bs NL) = NL \<and>
                 NL \<notin> set (drop (nat (LastIndexByte bs NL) + 1) bs)
            else LastIndexByte bs NL = - 1"
  proof (cases "NL \<in> set bs")
    case True
    then have ne: "LastIndexByte bs NL \<noteq> - 1" by (simp add: LastIndexByte_none_iff)
    with LastIndexByte_ge [of bs NL] have "0 \<le> LastIndexByte bs NL" by linarith
    with True LastIndexByte_last [OF ne] LastIndexByte_less [of bs NL] show ?thesis by simp
  next
    case False
    then show ?thesis by (simp add: LastIndexByte_none_iff)
  qed
  show ?thesis
  proof (intro exI conjI)
    show "Open pth prm mxs mxf w = (Inr ?wc, ?w2\<lparr>io_count := io_count ?w2 + n\<rparr>)"
      by (rule res)
    show "size' ?wc = int (length bs)" by simp
    show "lastNewline ?wc = LastIndexByte bs NL" by simp
    show "if NL \<in> set bs
            then 0 \<le> lastNewline ?wc \<and> lastNewline ?wc < int (length bs) \<and>
                 bs ! nat (lastNewline ?wc) = NL \<and>
                 NL \<notin> set (drop (nat (lastNewline ?wc) + 1) bs)
            else lastNewline ?wc = - 1"
      using last by (auto split: if_splits)
    show "content (?w2\<lparr>io_count := io_count ?w2 + n\<rparr>) = bs"
      using c by (simp add: content_def)
    show "bs = [] \<longrightarrow> io_count (?w2\<lparr>io_count := io_count ?w2 + n\<rparr>) = io_count w + 2"
      using empty by (simp add: step_def)
  qed
qed

text \<open>
  Two instances: a file of 9001 bytes whose only newline is its first byte, more than a
  window before the end, and an empty file.
\<close>

theorem Open_last_newline_witness:
  "(\<exists>wc w'. Open ''logfile'' 384 5 3
        \<lparr>target = Regular (10 # replicate 9000 98), archives = fmempty,
         handle_open = False, cursor = 0, io_count = 0, faults = no_faults\<rparr> = (Inr wc, w')
      \<and> size' wc = 9001 \<and> lastNewline wc = 0)
   \<and> (\<exists>wc w'. Open ''logfile'' 384 5 3
        \<lparr>target = Regular [], archives = fmempty,
         handle_open = False, cursor = 0, io_count = 0, faults = no_faults\<rparr> = (Inr wc, w')
      \<and> size' wc = 0 \<and> lastNewline wc = - 1 \<and> io_count w' = 2)"
proof -
  have l: "LastIndexByte (10 # replicate 9000 98) NL = 0"
  proof -
    have "NL \<notin> set (replicate 9000 (98 :: byte))" by simp
    then have "LastIndexByte (replicate 9000 98) NL = - 1"
      using LastIndexByte_none_iff [of "replicate 9000 98" NL] by blast
    then show ?thesis by simp
  qed
  from Open_last_newline [of 5 3
      "\<lparr>target = Regular (10 # replicate 9000 98), archives = fmempty,
        handle_open = False, cursor = 0, io_count = 0, faults = no_faults\<rparr>"
      "10 # replicate 9000 98" "''logfile''" 384]
  have a: "\<exists>wc w'. Open ''logfile'' 384 5 3
        \<lparr>target = Regular (10 # replicate 9000 98), archives = fmempty,
         handle_open = False, cursor = 0, io_count = 0, faults = no_faults\<rparr> = (Inr wc, w')
      \<and> size' wc = 9001 \<and> lastNewline wc = 0"
    unfolding l by (simp add: no_faults_def) blast
  from Open_last_newline [of 5 3
      "\<lparr>target = Regular [], archives = fmempty,
        handle_open = False, cursor = 0, io_count = 0, faults = no_faults\<rparr>"
      "[]" "''logfile''" 384]
  have b: "\<exists>wc w'. Open ''logfile'' 384 5 3
        \<lparr>target = Regular [], archives = fmempty,
         handle_open = False, cursor = 0, io_count = 0, faults = no_faults\<rparr> = (Inr wc, w')
      \<and> size' wc = 0 \<and> lastNewline wc = - 1 \<and> io_count w' = 2"
    by (auto simp: no_faults_def)
  from a b show ?thesis by blast
qed


section \<open>The archives through a rotation\<close>

lemma Lstat_gz_snd: "snd (Lstat_gz n w) = step w"
  by (simp add: Lstat_gz_def split: option.splits)

lemma step_fields [simp]:
  "target (step w) = target w" "archives (step w) = archives w"
  "handle_open (step w) = handle_open w" "cursor (step w) = cursor w"
  "faults (step w) = faults w" "io_count (step w) = Suc (io_count w)"
  "content (step w) = content w"
  by (simp_all add: step_def content_def)

text \<open>The probe leaves the files alone and, on archives \<open>1..N\<close>, finds \<open>N\<close>.\<close>

lemma highest_gz_frame:
  "highest_gz n w = (r, w') \<Longrightarrow>
     target w' = target w \<and> archives w' = archives w \<and> handle_open w' = handle_open w \<and>
     cursor w' = cursor w \<and> faults w' = faults w"
proof (induction n w rule: highest_gz.induct)
  case (1 n w)
  obtain e where l: "Lstat_gz (n + 1) w = (e, step w)"
    using Lstat_gz_snd [of "n + 1" w] by (cases "Lstat_gz (n + 1) w") simp
  show ?case
  proof (cases e)
    case None
    with l "1.prems" have "highest_gz (n + 1) (step w) = (r, w')"
      by (simp add: highest_gz.simps [of n w])
    from "1.IH" [OF l [symmetric] None this] show ?thesis by simp
  next
    case (Some a)
    with l "1.prems" have "w' = step w"
      by (auto simp: highest_gz.simps [of n w] split: if_splits)
    then show ?thesis by simp
  qed
qed

lemma highest_gz_gapfree:
  "highest_gz n w = (Inr r, w') \<Longrightarrow> fmdom' (archives w) = {1..N} \<Longrightarrow> 0 \<le> n \<Longrightarrow> n \<le> N \<Longrightarrow>
     r = N"
proof (induction n w rule: highest_gz.induct)
  case (1 n w)
  obtain e where l: "Lstat_gz (n + 1) w = (e, step w)"
    using Lstat_gz_snd [of "n + 1" w] by (cases "Lstat_gz (n + 1) w") simp
  show ?case
  proof (cases e)
    case None
    with l have "n + 1 \<in> fmdom' (archives w)" using Lstat_gz_None by blast
    with "1.prems"(2) have le: "n + 1 \<le> N" by simp
    from None l "1.prems"(1) have "highest_gz (n + 1) (step w) = (Inr r, w')"
      by (simp add: highest_gz.simps [of n w])
    from "1.IH" [OF l [symmetric] None this] "1.prems"(2,3) le show ?thesis by simp
  next
    case (Some a)
    with l "1.prems"(1) have r: "r = n" and ne: "IsNotExist a"
      by (auto simp: highest_gz.simps [of n w] split: if_splits)
    from l Some ne have "fmlookup (archives w) (n + 1) = None"
      by (auto simp: Lstat_gz_def split: option.splits)
    then have "n + 1 \<notin> fmdom' (archives w)" by (simp add: fmdom'_notI)
    with "1.prems"(2,3,4) r show ?thesis by simp
  qed
qed

text \<open>
  The deletion, on archives \<open>1..n\<close>: it stops at \<open>min n (max 0 (maxFiles - 2))\<close> and
  leaves the archives up to that number as they were.
\<close>

lemma delete_expired_gapfree:
  "delete_expired wc n w = (Inr r, w') \<Longrightarrow> fmdom' (archives w) = {1..n} \<Longrightarrow> 0 \<le> n \<Longrightarrow>
     r = min n (max 0 (maxFiles wc - 2)) \<and> fmdom' (archives w') = {1..r} \<and>
     (\<forall>k\<in>{1..r}. fmlookup (archives w') k = fmlookup (archives w) k) \<and>
     target w' = target w \<and> handle_open w' = handle_open w \<and> cursor w' = cursor w \<and>
     faults w' = faults w"
proof (induction wc n w rule: delete_expired.induct)
  case (1 wc n w)
  show ?case
  proof (cases "n > maxFiles wc - 2 \<and> n > 0")
    case False
    with "1.prems" show ?thesis by (auto simp: delete_expired.simps [of wc n w])
  next
    case True
    then have n: "n \<in> fmdom' (archives w)" using "1.prems"(2) by simp
    then obtain g where g: "fmlookup (archives w) n = Some g" by (auto simp: fmlookup_dom'_iff)
    obtain e w1 where rm: "Remove_gz n w = (e, w1)" by force
    with g "1.prems"(1) True have e: "e = None" and w1: "w1 = step (w\<lparr>archives := fmdrop n (archives w)\<rparr>)"
      by (auto simp: Remove_gz_def delete_expired.simps [of wc n w] split: option.splits if_splits)
    from "1.prems"(1) True rm e have rec: "delete_expired wc (n - 1) w1 = (Inr r, w')"
      by (simp add: delete_expired.simps [of wc n w])
    have "{1..n} - {n} = {1..n - 1}" by auto
    with "1.prems"(2) have dom1: "fmdom' (archives w1) = {1..n - 1}"
      by (simp add: w1)
    from True have n1: "0 \<le> n - 1" by simp
    note ih = "1.IH"(1) [OF True rm [symmetric] e rec dom1 n1]
    from ih have r1: "r = min (n - 1) (max 0 (maxFiles wc - 2))" by (rule conjunct1)
    from ih have d: "fmdom' (archives w') = {1..r}" by blast
    from ih have lk: "\<forall>k\<in>{1..r}. fmlookup (archives w') k = fmlookup (archives w1) k"
      by blast
    from ih have fr: "target w' = target w1" "handle_open w' = handle_open w1"
      "cursor w' = cursor w1" "faults w' = faults w1" by blast+
    from r1 True have r: "r = min n (max 0 (maxFiles wc - 2))" by linarith
    from r1 have "r \<le> n - 1" by simp
    then have "\<forall>k\<in>{1..r}. fmlookup (archives w1) k = fmlookup (archives w) k"
      by (simp add: w1)
    with lk have "\<forall>k\<in>{1..r}. fmlookup (archives w') k = fmlookup (archives w) k" by simp
    with r d fr show ?thesis by (simp add: w1)
  qed
qed

text \<open>
  The renaming, on archives \<open>1..n\<close> and others beyond \<open>n + 1\<close>: each archive \<open>k\<close> of
  \<open>1..n\<close> becomes archive \<open>k + 1\<close>, and no archive 1 is left.
\<close>

lemma move_up_shift:
  "move_up n w = (None, w') \<Longrightarrow> fmdom' (archives w) = {1..n} \<union> S \<Longrightarrow> \<forall>s\<in>S. n + 1 < s \<Longrightarrow>
     0 \<le> n \<Longrightarrow>
     fmdom' (archives w') = {2..n + 1} \<union> S \<and>
     (\<forall>k\<in>{1..n}. fmlookup (archives w') (k + 1) = fmlookup (archives w) k) \<and>
     (\<forall>s\<in>S. fmlookup (archives w') s = fmlookup (archives w) s) \<and>
     target w' = target w \<and> handle_open w' = handle_open w \<and> cursor w' = cursor w \<and>
     faults w' = faults w"
proof (induction n w arbitrary: S rule: move_up.induct)
  case (1 n w)
  show ?case
  proof (cases "n > 0")
    case False
    with "1.prems" show ?thesis by (auto simp: move_up.simps [of n w])
  next
    case True
    then have "n \<in> fmdom' (archives w)" using "1.prems"(2) by simp
    then obtain g where g: "fmlookup (archives w) n = Some g" by (auto simp: fmlookup_dom'_iff)
    obtain e w1 where rn: "Rename_gz n (n + 1) w = (e, w1)" by force
    with g "1.prems"(1) True have e: "e = None"
      and w1: "w1 = step (w\<lparr>archives := fmupd (n + 1) g (fmdrop n (archives w))\<rparr>)"
      by (auto simp: Rename_gz_def move_up.simps [of n w] split: option.splits if_splits)
    from "1.prems"(1) True rn e have rec: "move_up (n - 1) w1 = (None, w')"
      by (simp add: move_up.simps [of n w])
    have "n \<notin> S" using "1.prems"(3) by auto
    then have "insert (n + 1) (({1..n} \<union> S) - {n}) = {1..n - 1} \<union> insert (n + 1) S"
      by auto
    with "1.prems"(2) have dom1: "fmdom' (archives w1) = {1..n - 1} \<union> insert (n + 1) S"
      by (simp add: w1)
    have far: "\<forall>s\<in>insert (n + 1) S. n - 1 + 1 < s" using "1.prems"(3) by auto
    from True have n1: "0 \<le> n - 1" by simp
    note ih0 = "1.IH"(1) [OF True rn [symmetric] e rec dom1 far n1]
    from ih0 have d1: "fmdom' (archives w') = {2..n - 1 + 1} \<union> insert (n + 1) S"
      by (rule conjunct1)
    from ih0 have lk1: "\<forall>k\<in>{1..n - 1}. fmlookup (archives w') (k + 1) = fmlookup (archives w1) k"
      by blast
    from ih0 have lk2: "\<forall>s\<in>insert (n + 1) S. fmlookup (archives w') s = fmlookup (archives w1) s"
      by blast
    from ih0 have fr: "target w' = target w1" "handle_open w' = handle_open w1"
      "cursor w' = cursor w1" "faults w' = faults w1" by blast+
    have "{2..n - 1 + 1} \<union> insert (n + 1) S = {2..n + 1} \<union> S" using True by auto
    with d1 have d: "fmdom' (archives w') = {2..n + 1} \<union> S" by simp
    have low: "\<forall>k\<in>{1..n - 1}. fmlookup (archives w1) k = fmlookup (archives w) k"
      by (simp add: w1)
    have top: "fmlookup (archives w1) (n + 1) = fmlookup (archives w) n"
      by (simp add: w1 g)
    have others: "\<forall>s\<in>S. fmlookup (archives w1) s = fmlookup (archives w) s"
    proof
      fix s assume "s \<in> S"
      with "1.prems"(3) have "n + 1 < s" by blast
      then show "fmlookup (archives w1) s = fmlookup (archives w) s" by (simp add: w1)
    qed
    have "\<forall>k\<in>{1..n}. fmlookup (archives w') (k + 1) = fmlookup (archives w) k"
    proof
      fix k assume k: "k \<in> {1..n}"
      show "fmlookup (archives w') (k + 1) = fmlookup (archives w) k"
      proof (cases "k = n")
        case True
        with lk2 top show ?thesis by simp
      next
        case False
        with k have "k \<in> {1..n - 1}" by simp
        with lk1 low show ?thesis by simp
      qed
    qed
    moreover have "\<forall>s\<in>S. fmlookup (archives w') s = fmlookup (archives w) s"
      using lk2 others by simp
    ultimately show ?thesis using d fr by (simp add: w1)
  qed
qed

section \<open>The live file through a rotation\<close>

lemma archive_ops_content:
  "content (snd (Lstat_gz n w)) = content w"
  "content (snd (Remove_gz n w)) = content w"
  "content (snd (Rename_gz n m w)) = content w"
  "content (snd (OpenFile_gz n prm w)) = content w"
  "content (snd (CopyN_gz n k w)) = content w"
  "content (snd (gw_Close n w)) = content w"
  "content (snd (w_Close n w)) = content w"
  "content (snd (Seek0 w)) = content w"
  by (simp_all add: Lstat_gz_def Remove_gz_def Rename_gz_def OpenFile_gz_def CopyN_gz_def
      gw_Close_def w_Close_def Seek0_def feed_gz_def set_finished_def step_def content_def Let_def
      split: option.splits)

lemma highest_gz_content: "highest_gz n w = (r, w') \<Longrightarrow> content w' = content w"
  using highest_gz_frame [of n w r w'] by (simp add: content_def)

lemma delete_expired_content: "delete_expired wc n w = (r, w') \<Longrightarrow> content w' = content w"
proof (induction wc n w rule: delete_expired.induct)
  case (1 wc n w)
  show ?case
  proof (cases "n > maxFiles wc - 2 \<and> n > 0")
    case False
    with "1.prems" show ?thesis by (simp add: delete_expired.simps [of wc n w])
  next
    case True
    obtain e w1 where rm: "Remove_gz n w = (e, w1)" by force
    then have c: "content w1 = content w" using archive_ops_content(2) [of n w] by simp
    show ?thesis
    proof (cases e)
      case None
      with "1.prems" True rm have "delete_expired wc (n - 1) w1 = (r, w')"
        by (simp add: delete_expired.simps [of wc n w])
      from "1.IH"(1) [OF True rm [symmetric] None this] c show ?thesis by simp
    next
      case (Some a)
      show ?thesis
      proof (cases "IsNotExist a")
        case ne: True
        with "1.prems" True rm Some have "delete_expired wc (n - 1) w1 = (r, w')"
          by (simp add: delete_expired.simps [of wc n w])
        from "1.IH"(2) [OF True rm [symmetric] Some _ this] ne c show ?thesis by simp
      next
        case False
        with "1.prems" True rm Some have "w' = w1"
          by (simp add: delete_expired.simps [of wc n w])
        with c show ?thesis by simp
      qed
    qed
  qed
qed

lemma move_up_content: "move_up n w = (r, w') \<Longrightarrow> content w' = content w"
proof (induction n w rule: move_up.induct)
  case (1 n w)
  show ?case
  proof (cases "n > 0")
    case False
    with "1.prems" show ?thesis by (simp add: move_up.simps [of n w])
  next
    case True
    obtain e w1 where rn: "Rename_gz n (n + 1) w = (e, w1)" by force
    then have c: "content w1 = content w" using archive_ops_content(3) [of n "n + 1" w] by simp
    show ?thesis
    proof (cases e)
      case None
      with "1.prems" True rn have "move_up (n - 1) w1 = (r, w')"
        by (simp add: move_up.simps [of n w])
      from "1.IH"(1) [OF True rn [symmetric] None this] c show ?thesis by simp
    next
      case (Some a)
      show ?thesis
      proof (cases "IsNotExist a")
        case ne: True
        with "1.prems" True rn Some have "move_up (n - 1) w1 = (r, w')"
          by (simp add: move_up.simps [of n w])
        from "1.IH"(2) [OF True rn [symmetric] Some _ this] ne c show ?thesis by simp
      next
        case False
        with "1.prems" True rn Some have "w' = w1"
          by (simp add: move_up.simps [of n w])
        with c show ?thesis by simp
      qed
    qed
  qed
qed

lemma copy_to_gz_content: "copy_to_gz wc w = (r, w') \<Longrightarrow> content w' = content w"
proof (cases "maxFiles wc > 1")
  case False
  then show "copy_to_gz wc w = (r, w') \<Longrightarrow> content w' = content w"
    by (simp add: copy_to_gz_def)
next
  case True
  assume a: "copy_to_gz wc w = (r, w')"
  obtain e1 w1 where o: "OpenFile_gz 1 (perm wc) w = (e1, w1)" by force
  then have c1: "content w1 = content w" using archive_ops_content(4) [of 1 "perm wc" w] by simp
  show "content w' = content w"
  proof (cases e1)
    case (Some e)
    with a True o have "w' = w1" by (simp add: copy_to_gz_def)
    with c1 show ?thesis by simp
  next
    case None
    obtain e2 w2 where s: "Seek0 w1 = (e2, w2)" by force
    then have c2: "content w2 = content w1" using archive_ops_content(8) [of w1] by simp
    obtain e3 w3 where cp: "CopyN_gz 1 (lastNewline wc + 1) w2 = (e3, w3)" by force
    then have c3: "content w3 = content w2"
      using archive_ops_content(5) [of 1 "lastNewline wc + 1" w2] by simp
    define wm where "wm = (case e2 of Some e \<Rightarrow> w2 | None \<Rightarrow> w3)"
    have cm: "content wm = content w" using c1 c2 c3 by (simp add: wm_def split: option.splits)
    obtain e4 w4 where g: "gw_Close 1 wm = (e4, w4)" by force
    then have c4: "content w4 = content wm" using archive_ops_content(6) [of 1 wm] by simp
    obtain e5 w5 where cl: "w_Close 1 w4 = (e5, w5)" by force
    then have c5: "content w5 = content w4" using archive_ops_content(7) [of 1 w4] by simp
    from a True o None s cp g cl have "w' = w5"
      by (auto simp: copy_to_gz_def wm_def split: option.splits)
    with c5 c4 cm show ?thesis by simp
  qed
qed

text \<open>
  The copy through a window of any size \<open>win > 0\<close>, towards the start of the file
  (\<open>dst \<le> src\<close>): the bytes read are never ones the copy has already overwritten.
\<close>

lemma write_at_inside:
  "dst + length xs \<le> length bs \<Longrightarrow>
     write_at bs dst xs = take dst bs @ xs @ drop (dst + length xs) bs"
  by (cases "xs = []") (simp_all add: write_at_def)

lemma take_length_take: "take (length (take n xs)) xs = take n xs"
  by (cases "n \<le> length xs") (simp_all add: min_def)

lemma copy_window_result:
  "0 < win \<Longrightarrow> dst \<le> src \<Longrightarrow> src \<le> length bs \<Longrightarrow>
     copy_window win bs src dst rem =
       (take dst bs @ take rem (drop src bs) @ drop (dst + min rem (length bs - src)) bs,
        dst + min rem (length bs - src))"
proof (induction win bs src dst rem rule: copy_window.induct)
  case (1 win bs src dst rem)
  let ?chunk = "take (min rem win) (drop src bs)"
  show ?case
  proof (cases "?chunk = []")
    case True
    then have "length ?chunk = 0" by (simp only: length_0_conv)
    then have "min (min rem win) (length bs - src) = 0" by simp
    with "1.prems"(1) have z: "min rem (length bs - src) = 0" by arith
    then have e: "take rem (drop src bs) = []" by (auto simp: min_def split: if_splits)
    have cw0: "copy_window win bs src dst rem = (bs, dst)"
      using True by (subst copy_window.simps) (simp add: Let_def)
    have r: "(take dst bs @ take rem (drop src bs) @ drop (dst + min rem (length bs - src)) bs,
        dst + min rem (length bs - src)) = (bs, dst)"
      unfolding e z by simp
    show ?thesis unfolding r by (fact cw0)
  next
    case False
    define chunk where "chunk = take (min rem win) (drop src bs)"
    define c where "c = length chunk"
    define bs' where "bs' = write_at bs dst chunk"
    have c: "c = min (min rem win) (length bs - src)" by (simp add: c_def chunk_def)
    have ch: "chunk = take c (drop src bs)"
      unfolding c_def chunk_def by (rule take_length_take [symmetric])
    have cl: "length chunk = c" by (simp add: c_def)
    have dl: "dst \<le> length bs" "dst + c \<le> length bs" "c \<le> rem" "src + c \<le> length bs"
      using "1.prems"(2,3) c by arith+
    have bs': "bs' = take dst bs @ chunk @ drop (dst + c) bs"
      unfolding bs'_def using write_at_inside [of dst chunk bs] dl(2) cl by simp
    have len: "length bs' = length bs" using dl cl by (simp add: bs')
    have rec: "copy_window win bs src dst rem =
        copy_window win bs' (src + c) (dst + c) (rem - c)"
      unfolding bs'_def c_def chunk_def
      by (subst copy_window.simps) (simp only: Let_def False if_False)
    have p1: "dst + c \<le> src + c" using "1.prems"(2) by simp
    have p2: "src + c \<le> length bs'" using dl(4) len by simp
    have ih: "copy_window win bs' (src + c) (dst + c) (rem - c) =
        (take (dst + c) bs' @ take (rem - c) (drop (src + c) bs') @
           drop (dst + c + min (rem - c) (length bs' - (src + c))) bs',
         dst + c + min (rem - c) (length bs' - (src + c)))"
      unfolding bs'_def c_def chunk_def
    proof (rule "1.IH" [OF refl False "1.prems"(1)])
      from p1 show "dst + length ?chunk \<le> src + length ?chunk"
        unfolding c_def chunk_def .
      from p2 show "src + length ?chunk \<le> length (write_at bs dst ?chunk)"
        unfolding bs'_def c_def chunk_def .
    qed
    have t: "take (dst + c) bs' = take dst bs @ chunk"
      unfolding bs' using dl cl by simp
    have dr: "drop k bs' = drop k bs" if "dst + c \<le> k" for k
      unfolding bs' using that dl cl by simp
    have d1: "drop (src + c) bs' = drop (src + c) bs" using p1 by (rule dr)
    have m: "c + min (rem - c) (length bs - (src + c)) = min rem (length bs - src)"
      using c by arith
    then have m': "dst + c + min (rem - c) (length bs' - (src + c)) =
        dst + min rem (length bs - src)"
      unfolding len by linarith
    have d2: "drop (dst + min rem (length bs - src)) bs' =
        drop (dst + min rem (length bs - src)) bs"
      using c by (intro dr) arith
    have "take rem (drop src bs) = take (c + (rem - c)) (drop src bs)"
      using dl(3) by simp
    also have "\<dots> = take c (drop src bs) @ take (rem - c) (drop c (drop src bs))"
      by (rule take_add)
    also have "\<dots> = chunk @ take (rem - c) (drop (c + src) bs)"
      by (simp only: ch [symmetric] drop_drop)
    also have "\<dots> = chunk @ take (rem - c) (drop (src + c) bs)"
      by (simp only: add.commute)
    finally have mid: "take rem (drop src bs) = chunk @ take (rem - c) (drop (src + c) bs)" .
    show ?thesis unfolding rec ih t d1 d2 m' mid by simp
  qed
qed

lemma copy_to_beginning_content:
  assumes "copy_to_beginning wc w = (None, w')"
    and "size' wc = int (length (content w))"
    and "- 1 \<le> lastNewline wc" and "lastNewline wc < size' wc"
  shows "content w' = drop (nat (lastNewline wc + 1)) (content w)"
    and "archives w' = archives w"
proof -
  let ?bs = "content w"
  let ?off = "lastNewline wc + 1"
  let ?n = "size' wc - lastNewline wc - 1"
  obtain e1 w1 where s: "Seek0 w = (e1, w1)" by force
  with assms(1) have e1: "e1 = None" by (auto simp: copy_to_beginning_def split: option.splits)
  with s have w1: "w1 = step (w\<lparr>cursor := 0\<rparr>)" and ho: "handle_open w"
    by (auto simp: Seek0_def split: if_splits option.splits)
  obtain e2 w2 where cp: "Copy_section ?off ?n w1 = (e2, w2)" by force
  with assms(1) s e1 have e2: "e2 = None" and tr: "Truncate ?n w2 = (None, w')"
    by (auto simp: copy_to_beginning_def split: option.splits)
  have c1: "content w1 = ?bs" "cursor w1 = 0" "archives w1 = archives w"
    by (simp_all add: w1 content_def step_def)
  have n: "nat ?n = length ?bs - nat ?off" "nat ?off \<le> length ?bs"
    using assms(2-4) by linarith+
  have "content w2 = drop (nat ?off) ?bs @ drop (nat ?n) ?bs \<and> archives w2 = archives w"
  proof (cases "?n \<le> 0")
    case True
    with assms(4) have "?n = 0" by linarith
    with cp have "w2 = step w1" by (simp add: Copy_section_def)
    moreover from True assms(2-4) have "drop (nat ?off) ?bs = []" "nat ?n = 0" by simp_all
    ultimately show ?thesis using c1 by simp
  next
    case False
    have cw: "copy_window 32768 ?bs (nat ?off) 0 (nat ?n) =
        (take 0 ?bs @ take (nat ?n) (drop (nat ?off) ?bs) @
           drop (0 + min (nat ?n) (length ?bs - nat ?off)) ?bs,
         0 + min (nat ?n) (length ?bs - nat ?off))"
      using n by (intro copy_window_result) simp_all
    from cp e2 False assms(3) c1
    have "w2 = step (w1\<lparr>target := Regular (fst (copy_window 32768 ?bs (nat ?off) 0 (nat ?n))),
        cursor := snd (copy_window 32768 ?bs (nat ?off) 0 (nat ?n))\<rparr>)"
      by (auto simp: Copy_section_def Let_def split: if_splits option.splits prod.splits)
    then have "content w2 = fst (copy_window 32768 ?bs (nat ?off) 0 (nat ?n))"
      and "archives w2 = archives w1"
      by (simp_all add: content_def step_def)
    with cw n c1 show ?thesis by simp
  qed
  then have c2: "content w2 = drop (nat ?off) ?bs @ drop (nat ?n) ?bs"
    and a2: "archives w2 = archives w" by simp_all
  from tr have w': "w' = step (w2\<lparr>target :=
      Regular (take (nat ?n) (content w2) @ replicate (nat ?n - length (content w2)) 0)\<rparr>)"
    by (auto simp: Truncate_def split: if_splits option.splits)
  have "length (drop (nat ?off) ?bs) = nat ?n" using n by simp
  then have "take (nat ?n) (content w2) = drop (nat ?off) ?bs" unfolding c2 by simp
  moreover have "nat ?n \<le> length (content w2)" unfolding c2 using n by simp
  ultimately show "content w' = drop (nat ?off) ?bs"
    by (simp add: w' content_def step_def)
  show "archives w' = archives w" using a2 by (simp add: w' step_def)
qed

section \<open>The archives after a rotation\<close>

lemma rotate_stages:
  assumes "rotate' wc w = (None, wc', w')"
  obtains n w1 r w2 w3 w4 where
    "highest_gz 0 w = (Inr n, w1)" "delete_expired wc n w1 = (Inr r, w2)"
    "move_up r w2 = (None, w3)" "copy_to_gz wc w3 = (None, w4)"
    "copy_to_beginning wc w4 = (None, w')"
  using assms by (auto simp: rotate'_def split: prod.splits sum.splits option.splits)

lemma copy_to_beginning_archives:
  "copy_to_beginning wc w = (r, w') \<Longrightarrow> archives w' = archives w"
  by (auto simp: copy_to_beginning_def Seek0_def Copy_section_def Truncate_def step_def Let_def
      split: option.splits if_splits prod.splits)

text \<open>
  The new archive: when there is no archive 1, a copy that reports no error leaves in
  archive 1 a stream fed with the first \<open>lastNewline + 1\<close> bytes at the cursor 0, and
  nothing else; whether the stream was finished is another matter.
\<close>

lemma copy_to_gz_archives:
  assumes "copy_to_gz wc w = (None, w')" and "fmlookup (archives w) 1 = None"
  shows "if maxFiles wc > 1
         then \<exists>fin. archives w' =
                fmupd 1 (GzFile (take (nat (lastNewline wc + 1)) (content w)) fin False)
                  (archives w)
         else archives w' = archives w"
proof (cases "maxFiles wc > 1")
  case False
  with assms(1) show ?thesis by (simp add: copy_to_gz_def)
next
  case True
  obtain e1 w1 where o: "OpenFile_gz 1 (perm wc) w = (e1, w1)" by force
  with assms(1) True have e1: "e1 = None" by (auto simp: copy_to_gz_def split: option.splits)
  with o assms(2) have w1: "w1 = step (w\<lparr>archives := fmupd 1 (GzFile [] False False) (archives w)\<rparr>)"
    by (auto simp: OpenFile_gz_def split: option.splits)
  obtain e2 w2 where s: "Seek0 w1 = (e2, w2)" by force
  obtain e3 w3 where cp: "CopyN_gz 1 (lastNewline wc + 1) w2 = (e3, w3)" by force
  obtain e4 w4 where g: "gw_Close 1 w3 = (e4, w4)" by force
  obtain e5 w5 where cl: "w_Close 1 w4 = (e5, w5)" by force
  from assms(1) True o e1 s have e2: "e2 = None"
    by (auto simp: copy_to_gz_def split: option.splits prod.splits)
  with s have w2: "w2 = step (w1\<lparr>cursor := 0\<rparr>)"
    by (auto simp: Seek0_def split: if_splits option.splits)
  from assms(1) True o e1 s e2 cp g cl have e3: "e3 = None" and w': "w' = w5"
    by (auto simp: copy_to_gz_def split: option.splits prod.splits)
  have a2: "archives w2 = fmupd 1 (GzFile [] False False) (archives w)"
    and c2: "content w2 = content w" "cursor w2 = 0"
    by (simp_all add: w2 w1 step_def content_def)
  from cp e3 have a3: "archives w3 =
      fmupd 1 (GzFile (take (nat (lastNewline wc + 1)) (content w)) False False) (archives w)"
    by (auto simp: CopyN_gz_def feed_gz_def Let_def a2 c2 step_def
        split: if_splits option.splits)
  from g have "\<exists>fin. archives w4 =
      fmupd 1 (GzFile (take (nat (lastNewline wc + 1)) (content w)) fin False) (archives w)"
    by (auto simp: gw_Close_def set_finished_def a3 step_def split: option.splits)
  then obtain fin where a4: "archives w4 =
      fmupd 1 (GzFile (take (nat (lastNewline wc + 1)) (content w)) fin False) (archives w)" ..
  from cl have "\<exists>fin. archives w5 =
      fmupd 1 (GzFile (take (nat (lastNewline wc + 1)) (content w)) fin False) (archives w)"
    by (auto simp: w_Close_def set_finished_def a4 step_def split: option.splits)
  with True w' show ?thesis by simp
qed

text \<open>
  Claim C4.  A rotation that succeeds on archives numbered \<open>1..N\<close> without a gap, with
  \<open>maxFiles \<ge> 1\<close>: the probe finds \<open>N\<close>; the deletion goes on while
  \<open>n > maxFiles - 2\<close> and \<open>n > 0\<close> and stops at \<open>r = min N (max 0 (maxFiles - 2))\<close>, with
  archives \<open>1..r\<close> left; the renaming, from \<open>r\<close> down, makes each archive \<open>n\<close> the
  archive \<open>n + 1\<close>, so that the archives are \<open>2..r + 1\<close>, the highest number at most
  \<open>maxFiles - 1\<close>; and after the rotation the archives are \<open>1..k\<close> without a gap, with
  \<open>k \<le> maxFiles - 1\<close>: at most \<open>maxFiles - 1\<close> archives are kept.
\<close>

theorem rotate_archives:
  assumes "rotate' wc w = (None, wc', w')"
    and "fmdom' (archives w) = {1..N}" and "0 \<le> N" and "1 \<le> maxFiles wc"
  shows "\<exists>r k w1 w2 w3.
           highest_gz 0 w = (Inr N, w1) \<and>
           delete_expired wc N w1 = (Inr r, w2) \<and> r = min N (max 0 (maxFiles wc - 2)) \<and>
           fmdom' (archives w2) = {1..r} \<and>
           move_up r w2 = (None, w3) \<and> fmdom' (archives w3) = {2..r + 1} \<and>
           (\<forall>n\<in>{1..r}. n + 1 \<le> maxFiles wc - 1) \<and>
           k = (if maxFiles wc > 1 then r + 1 else 0) \<and>
           fmdom' (archives w') = {1..k} \<and> k \<le> maxFiles wc - 1 \<and>
           (\<forall>n\<in>{1..r}. fmlookup (archives w') (n + 1) = fmlookup (archives w) n) \<and>
           int (card (fmdom' (archives w'))) \<le> maxFiles wc - 1"
proof -
  from assms(1) obtain n w1 r w2 w3 w4 where
    hi: "highest_gz 0 w = (Inr n, w1)" and de: "delete_expired wc n w1 = (Inr r, w2)" and
    mv: "move_up r w2 = (None, w3)" and gz: "copy_to_gz wc w3 = (None, w4)" and
    cb: "copy_to_beginning wc w4 = (None, w')"
    by (rule rotate_stages)
  from highest_gz_gapfree [OF hi assms(2) _ assms(3)] have n: "n = N" by simp
  from highest_gz_frame [OF hi] have a1: "archives w1 = archives w" by simp
  from delete_expired_gapfree [OF de] a1 assms(2,3) n
  have r: "r = min N (max 0 (maxFiles wc - 2))" and d2: "fmdom' (archives w2) = {1..r}"
    and l2: "\<forall>k\<in>{1..r}. fmlookup (archives w2) k = fmlookup (archives w) k"
    by simp_all
  from r assms(3) have r0: "0 \<le> r" by simp
  from move_up_shift [OF mv, of "{}"] d2 r0
  have d3: "fmdom' (archives w3) = {2..r + 1}"
    and l3: "\<forall>k\<in>{1..r}. fmlookup (archives w3) (k + 1) = fmlookup (archives w2) k"
    by simp_all
  from d3 have "1 \<notin> fmdom' (archives w3)" by simp
  then have no1: "fmlookup (archives w3) 1 = None" by (rule fmdom'_notD)
  note g = copy_to_gz_archives [OF gz no1]
  from copy_to_beginning_archives [OF cb] have a5: "archives w' = archives w4" .
  define k where "k = (if maxFiles wc > 1 then r + 1 else 0)"
  have small: "\<forall>n\<in>{1..r}. n + 1 \<le> maxFiles wc - 1" using r by auto
  have k: "k \<le> maxFiles wc - 1" using r assms(4) by (auto simp: k_def)
  have d5: "fmdom' (archives w') = {1..k}"
  proof (cases "maxFiles wc > 1")
    case True
    with g obtain fin where "archives w4 =
        fmupd 1 (GzFile (take (nat (lastNewline wc + 1)) (content w3)) fin False) (archives w3)"
      by auto
    then have "fmdom' (archives w4) = insert 1 {2..r + 1}" using d3 by simp
    also have "\<dots> = {1..r + 1}" using r0 by auto
    finally show ?thesis using True by (simp add: a5 k_def)
  next
    case False
    with g have "archives w4 = archives w3" by simp
    moreover from False assms(3,4) r have "r = 0" by simp
    ultimately show ?thesis using False d3 by (simp add: a5 k_def)
  qed
  have l5: "\<forall>n\<in>{1..r}. fmlookup (archives w') (n + 1) = fmlookup (archives w) n"
  proof
    fix m assume m: "m \<in> {1..r}"
    then have "m + 1 \<noteq> 1" by simp
    with g have "fmlookup (archives w4) (m + 1) = fmlookup (archives w3) (m + 1)"
      by (auto split: if_splits)
    with l3 l2 m show "fmlookup (archives w') (m + 1) = fmlookup (archives w) m"
      by (simp add: a5)
  qed
  have "int (card (fmdom' (archives w'))) = k"
    unfolding d5 using r0 by (simp add: k_def)
  with k have c: "int (card (fmdom' (archives w'))) \<le> maxFiles wc - 1" by simp
  from hi n de r d2 mv d3 small k_def d5 k l5 c show ?thesis by blast
qed

text \<open>
  An instance: \<open>maxFiles = 3\<close> and the archives 1 and 2.  Archive 2 is deleted, archive 1
  becomes archive 2 and the start of the file becomes the new archive 1.
\<close>

theorem rotate_archives_witness:
  "fst (rotate' \<lparr>path = ''logfile'', perm = 384, maxSize = 5, maxFiles = 3, size' = 5,
            lastNewline = 2, closed = False, writeErr = None\<rparr>
     \<lparr>target = Regular [97, 98, 10, 99, 100],
      archives = fmupd 1 (GzFile [120, 10] True False)
                  (fmupd 2 (GzFile [121, 10] True False) fmempty),
      handle_open = True, cursor = 0, io_count = 0, faults = no_faults\<rparr>) = None
   \<and> fmdom' (archives (snd (snd (rotate'
       \<lparr>path = ''logfile'', perm = 384, maxSize = 5, maxFiles = 3, size' = 5,
            lastNewline = 2, closed = False, writeErr = None\<rparr>
     \<lparr>target = Regular [97, 98, 10, 99, 100],
      archives = fmupd 1 (GzFile [120, 10] True False)
                  (fmupd 2 (GzFile [121, 10] True False) fmempty),
      handle_open = True, cursor = 0, io_count = 0, faults = no_faults\<rparr>)))) = {1..2}
   \<and> fmlookup (archives (snd (snd (rotate'
       \<lparr>path = ''logfile'', perm = 384, maxSize = 5, maxFiles = 3, size' = 5,
            lastNewline = 2, closed = False, writeErr = None\<rparr>
     \<lparr>target = Regular [97, 98, 10, 99, 100],
      archives = fmupd 1 (GzFile [120, 10] True False)
                  (fmupd 2 (GzFile [121, 10] True False) fmempty),
      handle_open = True, cursor = 0, io_count = 0, faults = no_faults\<rparr>)))) 2
     = Some (GzFile [120, 10] True False)"
proof -
  let ?wc = "\<lparr>path = ''logfile'', perm = 384, maxSize = 5, maxFiles = 3, size' = 5,
            lastNewline = 2, closed = False, writeErr = None\<rparr>"
  let ?w = "\<lparr>target = Regular [97, 98, 10, 99, 100],
      archives = fmupd 1 (GzFile [120, 10] True False)
                  (fmupd 2 (GzFile [121, 10] True False) fmempty),
      handle_open = True, cursor = 0, io_count = 0, faults = no_faults\<rparr>"
  have h: "fst (rotate' ?wc ?w) = None" by (simp add: run_defs prim_defs)
  then have h': "rotate' ?wc ?w = (None, fst (snd (rotate' ?wc ?w)), snd (snd (rotate' ?wc ?w)))"
    by (simp add: prod_eq_iff)
  have d: "fmdom' (archives ?w) = {1..2}" by auto
  from rotate_archives [OF h' d] obtain r k where
    "r = min 2 (max 0 (maxFiles ?wc - 2))" and "k = (if maxFiles ?wc > 1 then r + 1 else 0)"
    and "fmdom' (archives (snd (snd (rotate' ?wc ?w)))) = {1..k}"
    and "\<forall>n\<in>{1..r}. fmlookup (archives (snd (snd (rotate' ?wc ?w)))) (n + 1) =
           fmlookup (archives ?w) n"
    by auto
  then have "fmdom' (archives (snd (snd (rotate' ?wc ?w)))) = {1..2}"
    and "fmlookup (archives (snd (snd (rotate' ?wc ?w)))) 2 = Some (GzFile [120, 10] True False)"
    by simp_all
  with h show ?thesis by simp
qed


section \<open>The invariant of the writer\<close>

lemma WriteAt_append:
  assumes "WriteAt xs off w = (n, None, w1)" and "off = int (length (content w))"
  shows "content w1 = content w @ xs"
  using assms
  by (auto simp: WriteAt_def write_at_def content_def step_def Let_def
      split: if_splits option.splits)

lemma rotate_inv:
  assumes "rotate' wc w = (None, wc', w')" and "wc_inv wc w"
  shows "wc_inv wc' w'"
    and "content w' = drop (nat (lastNewline wc + 1)) (content w)"
proof -
  from assms(1) obtain n w1 r w2 w3 w4 where
    hi: "highest_gz 0 w = (Inr n, w1)" and de: "delete_expired wc n w1 = (Inr r, w2)" and
    mv: "move_up r w2 = (None, w3)" and gz: "copy_to_gz wc w3 = (None, w4)" and
    cb: "copy_to_beginning wc w4 = (None, w')"
    by (rule rotate_stages)
  have c4: "content w4 = content w"
    using highest_gz_content [OF hi] delete_expired_content [OF de] move_up_content [OF mv]
      copy_to_gz_content [OF gz] by simp
  from assms(2) have sz: "size' wc = int (length (content w4))"
    and lo: "- 1 \<le> lastNewline wc" and hi': "lastNewline wc < size' wc"
    unfolding c4 by (auto simp: wc_inv_def)
  from copy_to_beginning_content(1) [OF cb sz lo hi']
  show c: "content w' = drop (nat (lastNewline wc + 1)) (content w)" unfolding c4 .
  from rotate_ok [OF assms(1)]
  have wc': "wc' = wc\<lparr>size' := size' wc - lastNewline wc - 1, lastNewline := - 1\<rparr>" .
  from sz lo hi' show "wc_inv wc' w'" unfolding wc_inv_def c wc' c4 by simp
qed

lemma Write_chunk_inv:
  assumes "Write_chunk wc p bw w = Again wc' p' bw' w'" and "p \<noteq> []" and "wc_inv wc w"
  shows "wc_inv wc' w'"
proof -
  from assms(1) obtain ln br0 br rot w1 where
    sc: "scan_lines (size' wc) (maxSize wc) (lastNewline wc) p 0 = (ln, br0)" and
    cl: "clip (size' wc) (maxSize wc) ln br0 = (br, rot)" and
    range: "0 \<le> br" "br \<le> int (length p)" and
    wr: "WriteAt (take (nat br) p) (size' wc) w = (br, None, w1)" and
    fin: "if rot
     then rotate' (wc\<lparr>lastNewline := ln, size' := size' wc + br\<rparr>) w1 = (None, wc', w')
     else wc' = wc\<lparr>lastNewline := ln, size' := size' wc + br\<rparr> \<and> w' = w1"
    by (rule Write_chunk_Again)
  let ?bs = "content w"
  let ?xs = "take (nat br) p"
  from assms(3) have sz: "size' wc = int (length ?bs)" by (simp add: wc_inv_def)
  from WriteAt_append [OF wr sz] have c1: "content w1 = ?bs @ ?xs" .
  have lx: "int (length ?xs) = br" using range by simp
  have new: "ln \<noteq> - 1 \<longrightarrow> 0 \<le> ln \<and> ln < size' wc + br \<and> (?bs @ ?xs) ! nat ln = NL"
  proof
    assume ne: "ln \<noteq> - 1"
    from scan_lines_start(3) [OF sc assms(2)]
    consider (old) "ln = lastNewline wc"
      | (found) "size' wc \<le> ln" "ln < size' wc + br0" "p ! nat (ln - size' wc) = NL"
      by blast
    then show "0 \<le> ln \<and> ln < size' wc + br \<and> (?bs @ ?xs) ! nat ln = NL"
    proof cases
      case old
      with ne assms(3) have o: "0 \<le> ln" "ln < size' wc" "?bs ! nat ln = NL"
        by (simp_all add: wc_inv_def)
      then have "nat ln < length ?bs" using sz by linarith
      then have "(?bs @ ?xs) ! nat ln = ?bs ! nat ln" by (simp add: nth_append)
      with o range show ?thesis by simp
    next
      case found
      have lt: "ln < size' wc + br"
      proof (cases rot)
        case True
        with cl have "clip (size' wc) (maxSize wc) ln br0 = (br, True)" by simp
        from clip_True [OF this] show ?thesis by simp
      next
        case False
        with cl have "clip (size' wc) (maxSize wc) ln br0 = (br, False)" by simp
        from clip_False [OF this] found(2) show ?thesis by simp
      qed
      have ge: "0 \<le> ln" using found(1) sz by simp
      have idx: "nat ln = length ?bs + nat (ln - size' wc)" using found(1) sz by linarith
      have small: "nat (ln - size' wc) < length ?xs" using lt found(1) lx by linarith
      have "(?bs @ ?xs) ! nat ln = ?xs ! nat (ln - size' wc)"
        unfolding idx by (rule nth_append_length_plus)
      also have "\<dots> = p ! nat (ln - size' wc)" using small by simp
      finally show ?thesis using found(3) lt ge by simp
    qed
  qed
  have inv2: "wc_inv (wc\<lparr>lastNewline := ln, size' := size' wc + br\<rparr>) w1"
    unfolding wc_inv_def c1 using new sz lx by simp
  show ?thesis
  proof (cases rot)
    case True
    with fin have "rotate' (wc\<lparr>lastNewline := ln, size' := size' wc + br\<rparr>) w1 = (None, wc', w')"
      by simp
    from rotate_inv(1) [OF this inv2] show ?thesis .
  next
    case False
    with fin inv2 show ?thesis by simp
  qed
qed

lemma Write_loop_inv:
  "Write_loop wc p bw w = (Returned n None, wc', w') \<Longrightarrow> wc_inv wc w \<Longrightarrow> wc_inv wc' w'"
proof (induction wc p bw w rule: Write_loop.induct)
  case (1 wc p bw w)
  show ?case
  proof (cases "p = []")
    case True
    with "1.prems" show ?thesis by (simp add: Write_loop.simps)
  next
    case False
    show ?thesis
    proof (cases "Write_chunk wc p bw w")
      case (Stop r)
      with False "1.prems"(1) have "Write_chunk wc p bw w = Stop (Returned n None, wc', w')"
        by (simp add: Write_loop.simps [of wc p])
      from Write_chunk_Stop [OF this, of n] show ?thesis by simp
    next
      case (Again wc1 p1 bw1 w1)
      with False "1.prems"(1) have "Write_loop wc1 p1 bw1 w1 = (Returned n None, wc', w')"
        by (simp add: Write_loop.simps [of wc p])
      moreover from Write_chunk_inv [OF Again False "1.prems"(2)] have "wc_inv wc1 w1" .
      ultimately show ?thesis using "1.IH" [OF _ Again] False by simp
    qed
  qed
qed

text \<open>
  The loop of \<^verbatim>\<open>Open\<close>, whenever it returns a position: the same invariant as
  above, without an assumption on the environment.
\<close>

lemma read_backwards_sound:
  assumes "read_backwards off bufSz w = (Inr r, w')"
    and "off < 0 \<longrightarrow> NL \<notin> set (content w)"
    and "0 \<le> off \<longrightarrow> 0 < bufSz \<and> off + bufSz \<le> int (length (content w)) \<and>
           NL \<notin> set (drop (nat (off + bufSz)) (content w)) \<and> 8192 dvd off"
  shows "r = LastIndexByte (content w) NL \<and> content w' = content w"
  using assms
proof (induction off bufSz w rule: read_backwards.induct)
  case (1 off bufSz w)
  let ?bs = "content w"
  show ?case
  proof (cases "0 \<le> off")
    case False
    with "1.prems"(2) have "LastIndexByte ?bs NL = - 1" by (simp add: LastIndexByte_none_iff)
    with False "1.prems"(1) show ?thesis by (simp add: read_backwards.simps)
  next
    case True
    with "1.prems"(3) have pos: "0 < bufSz" and inside: "off + bufSz \<le> int (length ?bs)"
      and rest: "NL \<notin> set (drop (nat (off + bufSz)) ?bs)" and dvd: "8192 dvd off"
      by simp_all
    let ?win = "take (nat bufSz) (drop (nat off) ?bs)"
    obtain buf e w1 where rd: "ReadAt bufSz off w = (buf, e, w1)" by (metis prod_cases3)
    with True "1.prems"(1) have e: "e = None"
      by (auto simp: read_backwards.simps [of off bufSz w] split: option.splits prod.splits)
    with rd True have buf: "buf = ?win" and w1: "w1 = step w"
      by (auto simp: ReadAt_def Let_def split: if_splits option.splits)
    have app: "drop (nat off) ?bs = ?win @ drop (nat (off + bufSz)) ?bs"
    proof -
      have "drop (nat off) ?bs = ?win @ drop (nat bufSz) (drop (nat off) ?bs)"
        by (rule append_take_drop_id [symmetric])
      moreover have "drop (nat bufSz) (drop (nat off) ?bs) = drop (nat (off + bufSz)) ?bs"
        using True pos by (simp add: nat_add_distrib add.commute)
      ultimately show ?thesis by (simp only:)
    qed
    have split: "?bs = take (nat off) ?bs @ ?win @ drop (nat (off + bufSz)) ?bs"
      using app by (metis append_take_drop_id)
    have len: "int (length (take (nat off) ?bs)) = off" using True pos inside by simp
    from rest have r: "LastIndexByte (drop (nat (off + bufSz)) ?bs) NL = - 1"
      by (simp add: LastIndexByte_none_iff)
    have whole: "LastIndexByte ?bs NL =
        (if LastIndexByte ?win NL \<noteq> - 1 then off + LastIndexByte ?win NL
         else LastIndexByte (take (nat off) ?bs) NL)"
      by (subst split) (simp only: LastIndexByte_append r len if_False simp_thms)
    show ?thesis
    proof (cases "LastIndexByte ?win NL = - 1")
      case False
      with True rd e buf w1 whole "1.prems"(1) show ?thesis
        by (auto simp: read_backwards.simps [of off bufSz w] Let_def)
    next
      case none: True
      then have nowin: "NL \<notin> set ?win" by (simp add: LastIndexByte_none_iff)
      from none have nn: "\<not> LastIndexByte ?win NL \<noteq> - 1" by simp
      have rec: "read_backwards (off - push_bit bufExp 1) (push_bit bufExp 1) (step w) = (Inr r, w')"
        using True rd e buf w1 none "1.prems"(1)
        by (simp add: read_backwards.simps [of off bufSz w] Let_def)
      have before: "NL \<notin> set (drop (nat off) ?bs)"
      proof -
        from app have "set (drop (nat off) ?bs) =
            set ?win \<union> set (drop (nat (off + bufSz)) ?bs)"
          by (metis set_append)
        with nowin rest show ?thesis by blast
      qed
      have "r = LastIndexByte (content (step w)) NL \<and> content w' = content (step w)"
      proof (rule "1.IH" [OF True _ refl refl refl nn rec])
        show "(?win, None, step w) = ReadAt bufSz off w" using rd e buf w1 by simp
        show "off - push_bit bufExp 1 < 0 \<longrightarrow> NL \<notin> set (content (step w))"
        proof
          assume "off - push_bit bufExp 1 < 0"
          with True dvd have "off = 0" by (auto elim!: dvdE)
          with before show "NL \<notin> set (content (step w))" by simp
        qed
        show "0 \<le> off - push_bit bufExp 1 \<longrightarrow>
            0 < push_bit bufExp (1 :: int) \<and>
            off - push_bit bufExp 1 + push_bit bufExp 1 \<le> int (length (content (step w))) \<and>
            NL \<notin> set (drop (nat (off - push_bit bufExp 1 + push_bit bufExp 1))
                        (content (step w))) \<and>
            8192 dvd off - push_bit bufExp 1"
          using before inside pos dvd by simp
      qed
      then show ?thesis by simp
    qed
  qed
qed

lemma Open_inv:
  assumes "Open pth prm mxs mxf w = (Inr wc, w')"
  shows "wc_inv wc w'"
    and "lastNewline wc = LastIndexByte (content w') NL"
    and "maxSize wc = mxs"
proof -
  obtain st w1 where ls: "Lstat_path w = (st, w1)" by force
  define szr where "szr = (case st of
      Inl e \<Rightarrow> if \<not> IsNotExist e then Inl e else Inr 0
    | Inr (regular, sz) \<Rightarrow> if \<not> regular then Inl ErrNotRegular else Inr (sz :: int))"
  from assms ls obtain sz where szr: "szr = Inr sz"
    by (cases szr) (auto simp: Open_def szr_def split: if_splits)
  obtain e2 w2 where op: "OpenFile_path prm w1 = (e2, w2)" by force
  with assms ls szr have e2: "e2 = None"
    by (cases e2) (auto simp: Open_def szr_def [symmetric] split: if_splits)
  let ?off = "push_bit bufExp (drop_bit bufExp (sz - 1))"
  from assms ls szr op e2 obtain ln where
    rb: "read_backwards ?off (sz - ?off) w2 = (Inr ln, w')"
    and wc: "wc = \<lparr>path = pth, perm = prm, maxSize = mxs, maxFiles = mxf, size' = sz,
      lastNewline = ln, closed = False, writeErr = None\<rparr>"
    by (auto simp: Open_def szr_def [symmetric] Let_def split: if_splits sum.splits prod.splits)
  have w1: "w1 = step w \<and> (w1 = step w \<longrightarrow> True)" using ls
    by (auto simp: Lstat_path_def split: option.splits node.splits)
  have sz: "sz = int (length (content w2))"
    using ls szr op e2
    by (auto simp: szr_def Lstat_path_def OpenFile_path_def content_def step_def
        split: option.splits node.splits if_splits sum.splits)
  have "ln = LastIndexByte (content w2) NL \<and> content w' = content w2"
  proof (rule read_backwards_sound [OF rb])
    show "?off < 0 \<longrightarrow> NL \<notin> set (content w2)"
    proof
      assume neg: "?off < 0"
      have "\<not> 1 \<le> sz" using first_window(1) [of sz] neg by linarith
      with sz have "\<not> 0 < length (content w2)" by linarith
      then show "NL \<notin> set (content w2)" by simp
    qed
    show "0 \<le> ?off \<longrightarrow> 0 < sz - ?off \<and> ?off + (sz - ?off) \<le> int (length (content w2)) \<and>
        NL \<notin> set (drop (nat (?off + (sz - ?off))) (content w2)) \<and> 8192 dvd ?off"
    proof
      assume pos: "0 \<le> ?off"
      have "1 \<le> sz"
      proof (rule ccontr)
        assume "\<not> 1 \<le> sz"
        with sz have "sz = 0" by linarith
        then have "?off = - 8192" by (simp add: push_bit_eq_mult drop_bit_eq_div)
        with pos show False by simp
      qed
      from first_window [OF this] sz show "0 < sz - ?off \<and>
          ?off + (sz - ?off) \<le> int (length (content w2)) \<and>
          NL \<notin> set (drop (nat (?off + (sz - ?off))) (content w2)) \<and> 8192 dvd ?off"
        by simp
    qed
  qed
  then have ln: "ln = LastIndexByte (content w') NL" and c: "content w' = content w2"
    by simp_all
  show "lastNewline wc = LastIndexByte (content w') NL" using ln by (simp add: wc)
  show "maxSize wc = mxs" by (simp add: wc)
  show "wc_inv wc w'"
  proof (cases "ln = - 1")
    case True
    with sz c show ?thesis by (simp add: wc_inv_def wc)
  next
    case False
    with ln have ne: "LastIndexByte (content w') NL \<noteq> - 1" by simp
    with LastIndexByte_ge [of "content w'" NL] have "0 \<le> LastIndexByte (content w') NL"
      by linarith
    with LastIndexByte_last [OF ne] LastIndexByte_less [of "content w'" NL] sz c ln
    show ?thesis by (simp add: wc_inv_def wc)
  qed
qed

text \<open>
  Claim C3.  After a successful \<^verbatim>\<open>Open\<close>, and after every successful \<^verbatim>\<open>Write\<close>
  and every successful rotation from a state of which this holds: \<^verbatim>\<open>wc.size\<close> is the
  length of the file and, when \<^verbatim>\<open>wc.lastNewline\<close> is not \<open>-1\<close>, it is at least 0 and
  less than \<^verbatim>\<open>wc.size\<close>, and the byte of the file at that offset is a newline.
\<close>

theorem lastNewline_invariant:
  "(Open pth prm mxs mxf w0 = (Inr wc0, w0') \<longrightarrow> wc_inv wc0 w0') \<and>
   (wc_inv wc w \<and> Write wc p w = (Returned bw None, wc', w') \<longrightarrow> wc_inv wc' w') \<and>
   (wc_inv wc w \<and> rotate' wc w = (None, wc'', w'') \<longrightarrow> wc_inv wc'' w'')"
proof (intro conjI impI)
  assume "Open pth prm mxs mxf w0 = (Inr wc0, w0')"
  then show "wc_inv wc0 w0'" by (rule Open_inv(1))
next
  assume a: "wc_inv wc w \<and> Write wc p w = (Returned bw None, wc', w')"
  then obtain wc1 where l: "Write_loop wc p 0 w = (Returned bw None, wc1, w')"
    and wc': "wc' = wc1\<lparr>writeErr := None\<rparr>"
    by (auto simp: Write_def split: option.splits if_splits prod.splits write_result.splits)
  from Write_loop_inv [OF l] a have "wc_inv wc1 w'" by simp
  then show "wc_inv wc' w'" by (auto simp: wc_inv_def wc')
next
  assume "wc_inv wc w \<and> rotate' wc w = (None, wc'', w'')"
  then show "wc_inv wc'' w''" using rotate_inv(1) by blast
qed

text \<open>
  Three instances: \<^verbatim>\<open>Open\<close> on the file \<open>"ab\ncd"\<close> with \<open>maxSize = 5\<close>; the write of
  \<open>"e\nf"\<close>, which rotates first and leaves \<open>"cde\nf"\<close> with the newline at offset 3; and
  the rotation of the file as opened.
\<close>

theorem lastNewline_invariant_witness:
  "Open ''logfile'' 384 5 3
     \<lparr>target = Regular [97, 98, 10, 99, 100], archives = fmempty, handle_open = False,
      cursor = 0, io_count = 0, faults = no_faults\<rparr>
   = (Inr \<lparr>path = ''logfile'', perm = 384, maxSize = 5, maxFiles = 3, size' = 5,
           lastNewline = 2, closed = False, writeErr = None\<rparr>,
      \<lparr>target = Regular [97, 98, 10, 99, 100], archives = fmempty, handle_open = True,
       cursor = 0, io_count = 3, faults = no_faults\<rparr>)
   \<and> wc_inv \<lparr>path = ''logfile'', perm = 384, maxSize = 5, maxFiles = 3, size' = 5,
           lastNewline = 2, closed = False, writeErr = None\<rparr>
      \<lparr>target = Regular [97, 98, 10, 99, 100], archives = fmempty, handle_open = True,
       cursor = 0, io_count = 3, faults = no_faults\<rparr>
   \<and> fst (Write \<lparr>path = ''logfile'', perm = 384, maxSize = 5, maxFiles = 3, size' = 5,
           lastNewline = 2, closed = False, writeErr = None\<rparr>
        [101, 10, 102]
        \<lparr>target = Regular [97, 98, 10, 99, 100], archives = fmempty, handle_open = True,
         cursor = 0, io_count = 3, faults = no_faults\<rparr>) = Returned 3 None
   \<and> lastNewline (fst (snd (Write \<lparr>path = ''logfile'', perm = 384, maxSize = 5,
           maxFiles = 3, size' = 5, lastNewline = 2, closed = False, writeErr = None\<rparr>
        [101, 10, 102]
        \<lparr>target = Regular [97, 98, 10, 99, 100], archives = fmempty, handle_open = True,
         cursor = 0, io_count = 3, faults = no_faults\<rparr>))) = 3
   \<and> wc_inv (fst (snd (Write \<lparr>path = ''logfile'', perm = 384, maxSize = 5,
           maxFiles = 3, size' = 5, lastNewline = 2, closed = False, writeErr = None\<rparr>
        [101, 10, 102]
        \<lparr>target = Regular [97, 98, 10, 99, 100], archives = fmempty, handle_open = True,
         cursor = 0, io_count = 3, faults = no_faults\<rparr>)))
       (snd (snd (Write \<lparr>path = ''logfile'', perm = 384, maxSize = 5,
           maxFiles = 3, size' = 5, lastNewline = 2, closed = False, writeErr = None\<rparr>
        [101, 10, 102]
        \<lparr>target = Regular [97, 98, 10, 99, 100], archives = fmempty, handle_open = True,
         cursor = 0, io_count = 3, faults = no_faults\<rparr>)))
   \<and> fst (rotate' \<lparr>path = ''logfile'', perm = 384, maxSize = 5, maxFiles = 3, size' = 5,
           lastNewline = 2, closed = False, writeErr = None\<rparr>
        \<lparr>target = Regular [97, 98, 10, 99, 100], archives = fmempty, handle_open = True,
         cursor = 0, io_count = 3, faults = no_faults\<rparr>) = None
   \<and> wc_inv (fst (snd (rotate' \<lparr>path = ''logfile'', perm = 384, maxSize = 5,
           maxFiles = 3, size' = 5, lastNewline = 2, closed = False, writeErr = None\<rparr>
        \<lparr>target = Regular [97, 98, 10, 99, 100], archives = fmempty, handle_open = True,
         cursor = 0, io_count = 3, faults = no_faults\<rparr>)))
       (snd (snd (rotate' \<lparr>path = ''logfile'', perm = 384, maxSize = 5,
           maxFiles = 3, size' = 5, lastNewline = 2, closed = False, writeErr = None\<rparr>
        \<lparr>target = Regular [97, 98, 10, 99, 100], archives = fmempty, handle_open = True,
         cursor = 0, io_count = 3, faults = no_faults\<rparr>)))"
proof -
  let ?v = "\<lparr>target = Regular [97, 98, 10, 99, 100], archives = fmempty,
      handle_open = False, cursor = 0, io_count = 0, faults = no_faults\<rparr>"
  let ?wc = "\<lparr>path = ''logfile'', perm = 384, maxSize = 5, maxFiles = 3, size' = 5,
           lastNewline = 2, closed = False, writeErr = None\<rparr>"
  let ?w = "\<lparr>target = Regular [97, 98, 10, 99, 100], archives = fmempty,
      handle_open = True, cursor = 0, io_count = 3, faults = no_faults\<rparr>"
  let ?p = "[101, 10, 102] :: byte list"
  have o: "Open ''logfile'' 384 5 3 ?v = (Inr ?wc, ?w)"
    by (simp add: run_defs prim_defs)
  have i: "wc_inv ?wc ?w" by (simp add: wc_inv_def content_def)
  have wr: "fst (Write ?wc ?p ?w) = Returned 3 None"
    and ln: "lastNewline (fst (snd (Write ?wc ?p ?w))) = 3"
    by (simp_all add: run_defs prim_defs)
  from wr have wr': "Write ?wc ?p ?w =
      (Returned 3 None, fst (snd (Write ?wc ?p ?w)), snd (snd (Write ?wc ?p ?w)))"
    by (simp add: prod_eq_iff)
  have ro: "fst (rotate' ?wc ?w) = None" by (simp add: run_defs prim_defs)
  then have ro': "rotate' ?wc ?w =
      (None, fst (snd (rotate' ?wc ?w)), snd (snd (rotate' ?wc ?w)))"
    by (simp add: prod_eq_iff)
  from lastNewline_invariant [where pth = "''logfile''" and prm = 384 and mxs = 5 and mxf = 3
      and ?w0.0 = ?v and ?wc0.0 = ?wc and w0' = ?w and wc = ?wc and w = ?w and p = ?p
      and bw = 3 and wc' = "fst (snd (Write ?wc ?p ?w))" and w' = "snd (snd (Write ?wc ?p ?w))"
      and wc'' = "fst (snd (rotate' ?wc ?w))" and w'' = "snd (snd (rotate' ?wc ?w))"]
    o i wr' ro'
  have "wc_inv (fst (snd (Write ?wc ?p ?w))) (snd (snd (Write ?wc ?p ?w)))"
    and "wc_inv (fst (snd (rotate' ?wc ?w))) (snd (snd (rotate' ?wc ?w)))"
    by blast+
  with o i wr ln ro show ?thesis by (simp only: simp_thms)
qed

section \<open>What a successful rotation leaves\<close>

text \<open>
  For a rotation that reports no error, from a state of which the invariant holds and
  archives \<open>1..N\<close>: the live file keeps the bytes after \<open>lastNewline\<close>, moved to its
  start, \<^verbatim>\<open>wc.size\<close> and \<^verbatim>\<open>wc.lastNewline\<close> are updated, and with \<open>maxFiles > 1\<close>
  archive 1 is a new file whose gzip stream was fed with the bytes up to \<open>lastNewline\<close>
  included.  Whether that stream was finished is not known from the result of
  \<^verbatim>\<open>rotate\<close>: the errors of the two closes are lost.
\<close>

lemma rotate_result:
  assumes "rotate' wc w = (None, wc', w')" and "wc_inv wc w"
    and "fmdom' (archives w) = {1..N}" and "0 \<le> N"
  shows "content w' = drop (nat (lastNewline wc + 1)) (content w)"
    and "size' wc' = size' wc - (lastNewline wc + 1)" and "lastNewline wc' = - 1"
    and "maxFiles wc > 1 \<longrightarrow>
          (\<exists>fin. fmlookup (archives w') 1 =
             Some (GzFile (take (nat (lastNewline wc + 1)) (content w)) fin False))"
proof -
  from rotate_inv(2) [OF assms(1,2)]
  show "content w' = drop (nat (lastNewline wc + 1)) (content w)" .
  from rotate_ok [OF assms(1)]
  show "size' wc' = size' wc - (lastNewline wc + 1)" and "lastNewline wc' = - 1"
    by simp_all
  from assms(1) obtain n w1 r w2 w3 w4 where
    hi: "highest_gz 0 w = (Inr n, w1)" and de: "delete_expired wc n w1 = (Inr r, w2)" and
    mv: "move_up r w2 = (None, w3)" and gz: "copy_to_gz wc w3 = (None, w4)" and
    cb: "copy_to_beginning wc w4 = (None, w')"
    by (rule rotate_stages)
  from highest_gz_gapfree [OF hi assms(3) _ assms(4)] have n: "n = N" by simp
  from highest_gz_frame [OF hi] have a1: "archives w1 = archives w" by simp
  from delete_expired_gapfree [OF de] a1 assms(3,4) n
  have r: "r = min N (max 0 (maxFiles wc - 2))" and d2: "fmdom' (archives w2) = {1..r}"
    by simp_all
  from r assms(4) have r0: "0 \<le> r" by simp
  from move_up_shift [OF mv, of "{}"] d2 r0
  have d3: "fmdom' (archives w3) = {2..r + 1}" by simp
  then have "1 \<notin> fmdom' (archives w3)" by simp
  then have no1: "fmlookup (archives w3) 1 = None" by (rule fmdom'_notD)
  have c3: "content w3 = content w"
    using highest_gz_content [OF hi] delete_expired_content [OF de] move_up_content [OF mv]
    by simp
  from copy_to_beginning_archives [OF cb] have a5: "archives w' = archives w4" .
  show "maxFiles wc > 1 \<longrightarrow>
          (\<exists>fin. fmlookup (archives w') 1 =
             Some (GzFile (take (nat (lastNewline wc + 1)) (content w)) fin False))"
  proof
    assume "maxFiles wc > 1"
    with copy_to_gz_archives [OF gz no1] obtain fin where "archives w4 =
        fmupd 1 (GzFile (take (nat (lastNewline wc + 1)) (content w3)) fin False) (archives w3)"
      by auto
    then have "fmlookup (archives w') 1 =
        Some (GzFile (take (nat (lastNewline wc + 1)) (content w)) fin False)"
      by (simp add: a5 c3)
    then show "\<exists>fin. fmlookup (archives w') 1 =
             Some (GzFile (take (nat (lastNewline wc + 1)) (content w)) fin False)" ..
  qed
qed


text \<open>
  The stream of the new archive is finished exactly when neither \<^verbatim>\<open>gw.Close()\<close> nor
  \<^verbatim>\<open>w.Close()\<close>, the fourth and the fifth file operation of the copy, fails; the
  copy reports no error either way.
\<close>

lemma copy_to_gz_finished:
  assumes "copy_to_gz wc w = (None, w')" and "fmlookup (archives w) 1 = None"
    and "maxFiles wc > 1"
  shows "fmlookup (archives w') 1 =
           Some (GzFile (take (nat (lastNewline wc + 1)) (content w))
                   (faults w (io_count w + 3) = None \<and> faults w (io_count w + 4) = None)
                   False)"
proof -
  obtain e1 w1 where o: "OpenFile_gz 1 (perm wc) w = (e1, w1)" by force
  with assms(1,3) have e1: "e1 = None" by (auto simp: copy_to_gz_def split: option.splits)
  with o assms(2) have w1: "w1 = step (w\<lparr>archives := fmupd 1 (GzFile [] False False) (archives w)\<rparr>)"
    by (auto simp: OpenFile_gz_def split: option.splits)
  obtain e2 w2 where s: "Seek0 w1 = (e2, w2)" by force
  obtain e3 w3 where cp: "CopyN_gz 1 (lastNewline wc + 1) w2 = (e3, w3)" by force
  obtain e4 w4 where g: "gw_Close 1 w3 = (e4, w4)" by force
  obtain e5 w5 where cl: "w_Close 1 w4 = (e5, w5)" by force
  from assms(1,3) o e1 s have e2: "e2 = None"
    by (auto simp: copy_to_gz_def split: option.splits prod.splits)
  with s have w2: "w2 = step (w1\<lparr>cursor := 0\<rparr>)"
    by (auto simp: Seek0_def split: if_splits option.splits)
  from assms(1,3) o e1 s e2 cp g cl have e3: "e3 = None" and w': "w' = w5"
    by (auto simp: copy_to_gz_def split: option.splits prod.splits)
  have a2: "archives w2 = fmupd 1 (GzFile [] False False) (archives w)"
    and c2: "content w2 = content w" "cursor w2 = 0"
    and i2: "io_count w2 = io_count w + 2" "faults w2 = faults w"
    by (simp_all add: w2 w1 step_def content_def)
  from cp e3 have a3: "archives w3 =
      fmupd 1 (GzFile (take (nat (lastNewline wc + 1)) (content w)) False False) (archives w)"
    and i3: "io_count w3 = io_count w + 3" "faults w3 = faults w"
    by (auto simp: CopyN_gz_def feed_gz_def Let_def a2 c2 i2 step_def
        split: if_splits option.splits)
  from g have a4: "archives w4 =
      fmupd 1 (GzFile (take (nat (lastNewline wc + 1)) (content w))
                 (faults w (io_count w + 3) = None) False) (archives w)"
    and i4: "io_count w4 = io_count w + 4" "faults w4 = faults w"
    by (auto simp: gw_Close_def set_finished_def a3 i3 step_def fault_now_def
        split: option.splits)
  from cl have "archives w5 =
      fmupd 1 (GzFile (take (nat (lastNewline wc + 1)) (content w))
                 (faults w (io_count w + 3) = None \<and> faults w (io_count w + 4) = None) False)
        (archives w)"
    by (auto simp: w_Close_def set_finished_def a4 i4 step_def fault_now_def
        split: option.splits)
  with w' show ?thesis by simp
qed

section \<open>When Write cannot panic\<close>

text \<open>
  The decision after the inner loop, in the words of the comment of the source: with a
  newline recorded and \<open>max = max (maxSize, lastNewline + 1)\<close>, a write that would pass
  \<open>max\<close> is cut to end at \<open>max\<close> and a rotation is scheduled; nothing else is cut.
\<close>

lemma clip_max:
  "clip sz mxs ln br =
     (if ln \<noteq> - 1 \<and> max mxs (ln + 1) < sz + br then (max mxs (ln + 1) - sz, True)
      else (br, False))"
  by (simp add: clip_def Let_def max_def)

text \<open>
  From a state within the bound, the cut \<open>br\<close> is a valid end of the slice
  \<^verbatim>\<open>p[:br]\<close>, and the state after the write is within the bound again.
\<close>

lemma clip_in_range:
  assumes "scan_lines sz mx ln0 p 0 = (ln, br0)" and "p \<noteq> []"
    and "clip sz mx ln br0 = (br, rot)"
    and "ln0 \<noteq> - 1 \<longrightarrow> sz \<le> max mx (ln0 + 1)"
  shows "0 \<le> br" and "br \<le> int (length p)"
    and "rot \<longrightarrow> sz + br = max mx (ln + 1)"
    and "\<not> rot \<longrightarrow> br = br0 \<and> (ln \<noteq> - 1 \<longrightarrow> sz + br \<le> max mx (ln + 1))"
proof -
  note s = scan_lines_start [OF assms(1,2)]
  show "0 \<le> br"
  proof (cases rot)
    case True
    with assms(3) have "clip sz mx ln br0 = (br, True)" by simp
    from clip_True [OF this] have ne: "ln \<noteq> - 1" and br: "br = max mx (ln + 1) - sz"
      by simp_all
    from s(3) have "sz \<le> max mx (ln + 1)"
    proof
      assume "ln = ln0"
      with ne assms(4) show ?thesis by simp
    next
      assume "sz \<le> ln \<and> ln < sz + br0 \<and> p ! nat (ln - sz) = NL"
      then have "sz \<le> ln + 1" by simp
      then show ?thesis by (simp add: max_def)
    qed
    with br show ?thesis by simp
  next
    case False
    with assms(3) have "clip sz mx ln br0 = (br, False)" by simp
    from clip_False [OF this] s(1) show ?thesis by simp
  qed
  show "br \<le> int (length p)"
  proof (cases rot)
    case True
    with assms(3) have "clip sz mx ln br0 = (br, True)" by simp
    from clip_True [OF this] s(2) show ?thesis by simp
  next
    case False
    with assms(3) have "clip sz mx ln br0 = (br, False)" by simp
    from clip_False [OF this] s(2) show ?thesis by simp
  qed
  show "rot \<longrightarrow> sz + br = max mx (ln + 1)"
  proof
    assume rot
    with assms(3) have "clip sz mx ln br0 = (br, True)" by simp
    from clip_True [OF this] show "sz + br = max mx (ln + 1)" by simp
  qed
  show "\<not> rot \<longrightarrow> br = br0 \<and> (ln \<noteq> - 1 \<longrightarrow> sz + br \<le> max mx (ln + 1))"
  proof
    assume "\<not> rot"
    with assms(3) have "clip sz mx ln br0 = (br, False)" by simp
    from clip_False [OF this]
    show "br = br0 \<and> (ln \<noteq> - 1 \<longrightarrow> sz + br \<le> max mx (ln + 1))" by simp
  qed
qed

lemma Write_chunk_no_panic:
  assumes "p \<noteq> []" and "within_limit wc"
  shows "Write_chunk wc p bw w \<noteq> Stop (Panicked, wc', w')"
proof
  assume a: "Write_chunk wc p bw w = Stop (Panicked, wc', w')"
  obtain ln br0 where sc: "scan_lines (size' wc) (maxSize wc) (lastNewline wc) p 0 = (ln, br0)"
    by force
  obtain br rot where cl: "clip (size' wc) (maxSize wc) ln br0 = (br, rot)" by force
  from assms(2) have lim: "lastNewline wc \<noteq> - 1 \<longrightarrow>
      size' wc \<le> max (maxSize wc) (lastNewline wc + 1)"
    by (simp add: within_limit_def)
  from clip_in_range(1,2) [OF sc assms(1) cl lim]
  have "\<not> (br < 0 \<or> int (length p) < br)" by simp
  with a sc cl show False
    by (auto simp: Write_chunk_def Let_def split: prod.splits option.splits if_splits)
qed

lemma Write_chunk_within_limit:
  assumes "Write_chunk wc p bw w = Again wc' p' bw' w'" and "p \<noteq> []" and "within_limit wc"
  shows "within_limit wc'"
proof -
  from assms(1) obtain ln br0 br rot w1 where
    sc: "scan_lines (size' wc) (maxSize wc) (lastNewline wc) p 0 = (ln, br0)" and
    cl: "clip (size' wc) (maxSize wc) ln br0 = (br, rot)" and
    fin: "if rot
     then rotate' (wc\<lparr>lastNewline := ln, size' := size' wc + br\<rparr>) w1 = (None, wc', w')
     else wc' = wc\<lparr>lastNewline := ln, size' := size' wc + br\<rparr> \<and> w' = w1"
    by (rule Write_chunk_Again)
  from assms(3) have lim: "lastNewline wc \<noteq> - 1 \<longrightarrow>
      size' wc \<le> max (maxSize wc) (lastNewline wc + 1)"
    by (simp add: within_limit_def)
  show ?thesis
  proof (cases rot)
    case True
    with fin have "rotate' (wc\<lparr>lastNewline := ln, size' := size' wc + br\<rparr>) w1 = (None, wc', w')"
      by simp
    from rotate_ok [OF this] show ?thesis by (simp add: within_limit_def)
  next
    case False
    with clip_in_range(4) [OF sc assms(2) cl lim] fin show ?thesis
      by (auto simp: within_limit_def)
  qed
qed

lemma Write_loop_no_panic:
  "within_limit wc \<Longrightarrow> Write_loop wc p bw w = (res, wc', w') \<Longrightarrow>
     res \<noteq> Panicked \<and> (res = Returned n None \<longrightarrow> within_limit wc')"
proof (induction wc p bw w rule: Write_loop.induct)
  case (1 wc p bw w)
  show ?case
  proof (cases "p = []")
    case True
    with "1.prems" show ?thesis by (auto simp: Write_loop.simps)
  next
    case False
    show ?thesis
    proof (cases "Write_chunk wc p bw w")
      case (Stop r)
      with False "1.prems"(2) have st: "Write_chunk wc p bw w = Stop (res, wc', w')"
        by (simp add: Write_loop.simps [of wc p])
      with Write_chunk_no_panic [OF False "1.prems"(1), of bw w wc' w']
      have "res \<noteq> Panicked" by auto
      moreover from Write_chunk_Stop [OF st, of n] have "res \<noteq> Returned n None" .
      ultimately show ?thesis by simp
    next
      case (Again wc1 p1 bw1 w1)
      with False "1.prems"(2) have "Write_loop wc1 p1 bw1 w1 = (res, wc', w')"
        by (simp add: Write_loop.simps [of wc p])
      moreover from Write_chunk_within_limit [OF Again False "1.prems"(1)]
      have "within_limit wc1" .
      ultimately show ?thesis using "1.IH" [OF _ Again] False by simp
    qed
  qed
qed

text \<open>
  So \<^verbatim>\<open>Write\<close> does not panic on a writer within the bound, and leaves it within
  the bound when it returns no error; a rotation leaves it within the bound too; and
  \<^verbatim>\<open>Open\<close> gives a writer within the bound on a file that is not longer than
  \<open>maxSize\<close>, or that ends with its last newline.  The bound is lost only by
  \<^verbatim>\<open>Open\<close> on a longer file.
\<close>

lemma Write_no_panic:
  assumes "within_limit wc"
  shows "fst (Write wc p w) \<noteq> Panicked"
    and "Write wc p w = (Returned bw None, wc', w') \<longrightarrow> within_limit wc'"
proof -
  obtain res wc1 w1 where l: "Write_loop wc p 0 w = (res, wc1, w1)" by (metis prod_cases3)
  from Write_loop_no_panic [OF assms l, of bw]
  have np: "res \<noteq> Panicked" and lim: "res = Returned bw None \<longrightarrow> within_limit wc1"
    by simp_all
  from np l show "fst (Write wc p w) \<noteq> Panicked"
    by (cases res) (auto simp: Write_def split: option.splits)
  show "Write wc p w = (Returned bw None, wc', w') \<longrightarrow> within_limit wc'"
  proof
    assume "Write wc p w = (Returned bw None, wc', w')"
    with l have "res = Returned bw None" and "wc' = wc1\<lparr>writeErr := None\<rparr>"
      by (auto simp: Write_def split: option.splits if_splits write_result.splits)
    with lim show "within_limit wc'" by (simp add: within_limit_def)
  qed
qed

lemma rotate_within_limit:
  "rotate' wc w = (None, wc', w') \<Longrightarrow> within_limit wc'"
  using rotate_ok [of wc w wc' w'] by (simp add: within_limit_def)

lemma Open_within_limit:
  assumes "Open pth prm mxs mxf w = (Inr wc, w')"
    and "int (length (content w')) \<le> mxs \<or>
         LastIndexByte (content w') NL = int (length (content w')) - 1"
  shows "within_limit wc"
proof -
  from Open_inv [OF assms(1)] have sz: "size' wc = int (length (content w'))"
    and ln: "lastNewline wc = LastIndexByte (content w') NL" and mx: "maxSize wc = mxs"
    by (simp_all add: wc_inv_def)
  from assms(2) sz ln mx show ?thesis by (auto simp: within_limit_def)
qed

section \<open>Every rotation works on the files\<close>

text \<open>Each file operation is counted once.\<close>

lemma archive_ops_io:
  "io_count (snd (Lstat_gz n w)) = Suc (io_count w)"
  "io_count (snd (Remove_gz n w)) = Suc (io_count w)"
  "io_count (snd (Rename_gz n m w)) = Suc (io_count w)"
  "io_count (snd (OpenFile_gz n prm w)) = Suc (io_count w)"
  "io_count (snd (CopyN_gz n k w)) = Suc (io_count w)"
  "io_count (snd (gw_Close n w)) = Suc (io_count w)"
  "io_count (snd (w_Close n w)) = Suc (io_count w)"
  "io_count (snd (Seek0 w)) = Suc (io_count w)"
  by (simp_all add: Lstat_gz_def Remove_gz_def Rename_gz_def OpenFile_gz_def CopyN_gz_def
      gw_Close_def w_Close_def Seek0_def feed_gz_def set_finished_def step_def Let_def
      split: option.splits)

lemma handle_ops_io:
  "io_count (snd (Copy_section off n w)) = Suc (io_count w)"
  "io_count (snd (Truncate k w)) = Suc (io_count w)"
  "io_count (snd (snd (WriteAt xs off w))) = Suc (io_count w)"
  by (simp_all add: Copy_section_def Truncate_def WriteAt_def step_def Let_def
      split: option.splits prod.splits)

lemma highest_gz_io: "highest_gz n w = (r, w') \<Longrightarrow> io_count w < io_count w'"
proof (induction n w rule: highest_gz.induct)
  case (1 n w)
  obtain e where l: "Lstat_gz (n + 1) w = (e, step w)"
    using Lstat_gz_snd [of "n + 1" w] by (cases "Lstat_gz (n + 1) w") simp
  show ?case
  proof (cases e)
    case None
    with l "1.prems" have "highest_gz (n + 1) (step w) = (r, w')"
      by (simp add: highest_gz.simps [of n w])
    from "1.IH" [OF l [symmetric] None this] show ?thesis by simp
  next
    case (Some a)
    with l "1.prems" have "w' = step w"
      by (auto simp: highest_gz.simps [of n w] split: if_splits)
    then show ?thesis by simp
  qed
qed

lemma delete_expired_io: "delete_expired wc n w = (r, w') \<Longrightarrow> io_count w \<le> io_count w'"
proof (induction wc n w rule: delete_expired.induct)
  case (1 wc n w)
  show ?case
  proof (cases "n > maxFiles wc - 2 \<and> n > 0")
    case False
    with "1.prems" show ?thesis by (simp add: delete_expired.simps [of wc n w])
  next
    case True
    obtain e w1 where rm: "Remove_gz n w = (e, w1)" by force
    then have c: "io_count w1 = Suc (io_count w)" using archive_ops_io(2) [of n w] by simp
    show ?thesis
    proof (cases e)
      case None
      with "1.prems" True rm have "delete_expired wc (n - 1) w1 = (r, w')"
        by (simp add: delete_expired.simps [of wc n w])
      from "1.IH"(1) [OF True rm [symmetric] None this] c show ?thesis by simp
    next
      case (Some a)
      show ?thesis
      proof (cases "IsNotExist a")
        case ne: True
        with "1.prems" True rm Some have "delete_expired wc (n - 1) w1 = (r, w')"
          by (simp add: delete_expired.simps [of wc n w])
        from "1.IH"(2) [OF True rm [symmetric] Some _ this] ne c show ?thesis by simp
      next
        case False
        with "1.prems" True rm Some have "w' = w1"
          by (simp add: delete_expired.simps [of wc n w])
        with c show ?thesis by simp
      qed
    qed
  qed
qed

lemma move_up_io: "move_up n w = (r, w') \<Longrightarrow> io_count w \<le> io_count w'"
proof (induction n w rule: move_up.induct)
  case (1 n w)
  show ?case
  proof (cases "n > 0")
    case False
    with "1.prems" show ?thesis by (simp add: move_up.simps [of n w])
  next
    case True
    obtain e w1 where rn: "Rename_gz n (n + 1) w = (e, w1)" by force
    then have c: "io_count w1 = Suc (io_count w)"
      using archive_ops_io(3) [of n "n + 1" w] by simp
    show ?thesis
    proof (cases e)
      case None
      with "1.prems" True rn have "move_up (n - 1) w1 = (r, w')"
        by (simp add: move_up.simps [of n w])
      from "1.IH"(1) [OF True rn [symmetric] None this] c show ?thesis by simp
    next
      case (Some a)
      show ?thesis
      proof (cases "IsNotExist a")
        case ne: True
        with "1.prems" True rn Some have "move_up (n - 1) w1 = (r, w')"
          by (simp add: move_up.simps [of n w])
        from "1.IH"(2) [OF True rn [symmetric] Some _ this] ne c show ?thesis by simp
      next
        case False
        with "1.prems" True rn Some have "w' = w1"
          by (simp add: move_up.simps [of n w])
        with c show ?thesis by simp
      qed
    qed
  qed
qed

lemma copy_to_gz_io: "copy_to_gz wc w = (r, w') \<Longrightarrow> io_count w \<le> io_count w'"
proof (cases "maxFiles wc > 1")
  case False
  then show "copy_to_gz wc w = (r, w') \<Longrightarrow> io_count w \<le> io_count w'"
    by (simp add: copy_to_gz_def)
next
  case True
  assume a: "copy_to_gz wc w = (r, w')"
  obtain e1 w1 where o: "OpenFile_gz 1 (perm wc) w = (e1, w1)" by force
  then have c1: "io_count w1 = Suc (io_count w)"
    using archive_ops_io(4) [of 1 "perm wc" w] by simp
  show "io_count w \<le> io_count w'"
  proof (cases e1)
    case (Some e)
    with a True o have "w' = w1" by (simp add: copy_to_gz_def)
    with c1 show ?thesis by simp
  next
    case None
    obtain e2 w2 where s: "Seek0 w1 = (e2, w2)" by force
    then have c2: "io_count w2 = Suc (io_count w1)" using archive_ops_io(8) [of w1] by simp
    obtain e3 w3 where cp: "CopyN_gz 1 (lastNewline wc + 1) w2 = (e3, w3)" by force
    then have c3: "io_count w3 = Suc (io_count w2)"
      using archive_ops_io(5) [of 1 "lastNewline wc + 1" w2] by simp
    define wm where "wm = (case e2 of Some e \<Rightarrow> w2 | None \<Rightarrow> w3)"
    have cm: "io_count w \<le> io_count wm"
      using c1 c2 c3 by (simp add: wm_def split: option.splits)
    obtain e4 w4 where g: "gw_Close 1 wm = (e4, w4)" by force
    then have c4: "io_count w4 = Suc (io_count wm)" using archive_ops_io(6) [of 1 wm] by simp
    obtain e5 w5 where cl: "w_Close 1 w4 = (e5, w5)" by force
    then have c5: "io_count w5 = Suc (io_count w4)" using archive_ops_io(7) [of 1 w4] by simp
    from a True o None s cp g cl have "w' = w5"
      by (auto simp: copy_to_gz_def wm_def split: option.splits)
    with c5 c4 cm show ?thesis by simp
  qed
qed

lemma copy_to_beginning_io:
  "copy_to_beginning wc w = (r, w') \<Longrightarrow> io_count w \<le> io_count w'"
proof -
  assume a: "copy_to_beginning wc w = (r, w')"
  obtain e1 w1 where s: "Seek0 w = (e1, w1)" by force
  then have c1: "io_count w1 = Suc (io_count w)" using archive_ops_io(8) [of w] by simp
  obtain e2 w2 where cp:
    "Copy_section (lastNewline wc + 1) (size' wc - lastNewline wc - 1) w1 = (e2, w2)"
    by force
  then have c2: "io_count w2 = Suc (io_count w1)"
    using handle_ops_io(1) [of "lastNewline wc + 1" "size' wc - lastNewline wc - 1" w1]
    by simp
  obtain e3 w3 where t: "Truncate (size' wc - lastNewline wc - 1) w2 = (e3, w3)" by force
  then have c3: "io_count w3 = Suc (io_count w2)"
    using handle_ops_io(2) [of "size' wc - lastNewline wc - 1" w2] by simp
  from a s cp t have "w' = w1 \<or> w' = w2 \<or> w' = w3"
    by (auto simp: copy_to_beginning_def split: option.splits)
  with c1 c2 c3 show ?thesis by auto
qed

text \<open>
  A call of \<^verbatim>\<open>rotate\<close> begins with the probe for \<open><path>.1.gz\<close>: whatever its outcome, it
  has done at least one file operation.
\<close>

lemma rotate_io: "io_count w < io_count (snd (snd (rotate' wc w)))"
proof -
  obtain r1 w1 where h: "highest_gz 0 w = (r1, w1)" by force
  from highest_gz_io [OF h] have c1: "io_count w < io_count w1" .
  show ?thesis
  proof (cases r1)
    case (Inl e)
    with h c1 show ?thesis by (simp add: rotate'_def)
  next
    case (Inr n)
    obtain r2 w2 where d: "delete_expired wc n w1 = (r2, w2)" by force
    from delete_expired_io [OF d] have c2: "io_count w1 \<le> io_count w2" .
    show ?thesis
    proof (cases r2)
      case (Inl e)
      with h Inr d c1 c2 show ?thesis by (simp add: rotate'_def)
    next
      case n': (Inr n')
      obtain r3 w3 where m: "move_up n' w2 = (r3, w3)" by force
      from move_up_io [OF m] have c3: "io_count w2 \<le> io_count w3" .
      obtain r4 w4 where g: "copy_to_gz wc w3 = (r4, w4)" by force
      from copy_to_gz_io [OF g] have c4: "io_count w3 \<le> io_count w4" .
      obtain r5 w5 where b: "copy_to_beginning wc w4 = (r5, w5)" by force
      from copy_to_beginning_io [OF b] have c5: "io_count w4 \<le> io_count w5" .
      from h Inr d n' m g b c1 c2 c3 c4 c5 show ?thesis
        by (auto simp: rotate'_def split: option.splits)
    qed
  qed
qed

section \<open>A line longer than maxSize\<close>

lemma IndexByte_last:
  assumes "c \<in> set s" and "c \<notin> set (butlast s)"
  shows "IndexByte s c = int (length s) - 1"
proof -
  from assms(1) have ne: "IndexByte s c \<noteq> - 1" by (simp add: IndexByte_none_iff)
  with IndexByte_ge [of s c] have i0: "0 \<le> IndexByte s c" by linarith
  have lt: "IndexByte s c < int (length s)" by (rule IndexByte_less)
  have "\<not> IndexByte s c < int (length s) - 1"
  proof
    assume "IndexByte s c < int (length s) - 1"
    with i0 have "nat (IndexByte s c) < length (butlast s)" by simp
    then have "butlast s ! nat (IndexByte s c) \<in> set (butlast s)" by (rule nth_mem)
    moreover have "butlast s ! nat (IndexByte s c) = s ! nat (IndexByte s c)"
      using \<open>nat (IndexByte s c) < length (butlast s)\<close> by (rule nth_butlast)
    ultimately show False using IndexByte_nth [OF ne] assms(2) by simp
  qed
  with lt show ?thesis by linarith
qed

lemma scan_one_line:
  assumes "NL \<notin> set (butlast p)" and "p \<noteq> []"
  shows "scan_lines sz mx (- 1) p 0 =
           (if last p = NL then sz + int (length p) - 1 else - 1, int (length p))"
proof (cases "NL \<in> set p")
  case False
  then have "IndexByte (drop (nat 0) p) NL = - 1" by (simp add: IndexByte_none_iff)
  moreover from False assms(2) have "last p \<noteq> NL" by (metis last_in_set)
  ultimately show ?thesis using scan_lines_done [of 0 p sz mx "- 1"] by simp
next
  case True
  with assms(1,2) have l: "last p = NL"
    by (metis append_butlast_last_id set_ConsD set_append Un_iff list.set(1) empty_iff
        list.set(2) insert_iff)
  from IndexByte_last [OF True assms(1)]
  have i: "IndexByte (drop (nat 0) p) NL = int (length p) - 1" by simp
  have ne: "int (length p) - 1 \<noteq> - 1" using assms(2) by simp
  show ?thesis
  proof (cases "mx < sz + int (length p)")
    case over: True
    then have "mx < sz + (0 + (int (length p) - 1 + 1))" by simp
    from scan_lines_stop [OF i ne this, of "- 1"] l show ?thesis by simp
  next
    case False
    then have "\<not> mx < sz + (0 + (int (length p) - 1 + 1))" by simp
    from scan_lines_next [OF i ne this, of "- 1"]
    have s: "scan_lines sz mx (- 1) p 0 =
        scan_lines sz mx (sz + int (length p) - 1) p (int (length p))"
      by (simp add: algebra_simps)
    have "IndexByte (drop (nat (int (length p))) p) NL = - 1" by simp
    from scan_lines_done [OF this, of sz mx "sz + int (length p) - 1"] s l
    show ?thesis by simp
  qed
qed

lemma WriteAt_archives: "archives (snd (snd (WriteAt xs off w))) = archives w"
  by (simp add: WriteAt_def step_def split: option.splits)

lemma WriteAt_full:
  "WriteAt xs off w = (n, None, w1) \<Longrightarrow> n = int (length xs)"
  by (auto simp: WriteAt_def split: if_splits option.splits)

text \<open>
  A pass through the body of the loop after whose scan no newline is recorded: the cut
  leaves \<open>br\<close> as it is and schedules no rotation, the slice expression does not panic,
  and the pass is the write alone.
\<close>

lemma Write_chunk_no_newline:
  assumes "scan_lines (size' wc) (maxSize wc) (lastNewline wc) p 0 = (- 1, br0)"
  shows "Write_chunk wc p bw w =
           (case WriteAt (take (nat br0) p) (size' wc) w of
              (n, err, w1) \<Rightarrow>
                (case err of
                   Some e \<Rightarrow>
                     Stop (Returned (bw + n) (Some e),
                           wc\<lparr>lastNewline := - 1, size' := size' wc + n\<rparr>, w1)
                 | None \<Rightarrow>
                     Again (wc\<lparr>lastNewline := - 1, size' := size' wc + n\<rparr>)
                       (drop (nat br0) p) (bw + n) w1))"
proof -
  from scan_lines_props [OF assms] have r: "0 \<le> br0" "br0 \<le> int (length p)" by simp_all
  have cl: "clip (size' wc) (maxSize wc) (- 1) br0 = (br0, False)" by (simp add: clip_def)
  from r show ?thesis
    by (simp add: Write_chunk_def assms cl Let_def split: prod.splits option.splits)
qed

text \<open>
  Claim C6.  On a writer that has recorded no newline, the write of one line (a
  non-empty slice with no newline but, at most, as its last byte), of any length and in
  any state of the file system, is the write of the whole slice at the end of the file
  and nothing else: \<^verbatim>\<open>Write\<close> returns what \<^verbatim>\<open>WriteAt\<close> returns, records the newline
  if the line ends with one, has done exactly one file operation and leaves the archives
  as they are, whereas a call of \<^verbatim>\<open>rotate\<close> always does at least one file operation.
  So no rotation runs, whether the line is longer than \<open>maxSize\<close> or, like \<open>"abc"\<close>
  and then \<open>"def"\<close> with \<open>maxSize = 5\<close>, only the file grows beyond it.  When the
  environment lets the write through the line is appended in full, and the file is then
  longer than \<open>maxSize\<close> if the line is.  In general, in any pass through the loop of
  \<^verbatim>\<open>Write\<close> after whose scan no newline is recorded, the write is not cut, and the
  pass consists of the write alone: \<^verbatim>\<open>rotate\<close> is not called.
\<close>

theorem Write_long_line:
  assumes "writeErr wc = None" and "\<not> closed wc" and "lastNewline wc = - 1"
    and "p \<noteq> []" and "NL \<notin> set (butlast p)"
  shows "Write wc p w =
           (case WriteAt p (size' wc) w of
              (n, err, w1) \<Rightarrow>
                (Returned n err,
                 wc\<lparr>size' := size' wc + n,
                    lastNewline :=
                      (if last p = NL then size' wc + int (length p) - 1 else - 1),
                    writeErr := err\<rparr>,
                 w1))
         \<and> io_count (snd (snd (Write wc p w))) = Suc (io_count w)
         \<and> archives (snd (snd (Write wc p w))) = archives w
         \<and> io_count v < io_count (snd (snd (rotate' wx v)))
         \<and> (target w = Regular bs \<and> size' wc = int (length bs) \<and> handle_open w \<and>
              fault_now w = None \<longrightarrow>
            Write wc p w =
              (Returned (int (length p)) None,
               wc\<lparr>size' := size' wc + int (length p),
                  lastNewline :=
                    (if last p = NL then size' wc + int (length p) - 1 else - 1)\<rparr>,
               w\<lparr>target := Regular (bs @ p), io_count := Suc (io_count w)\<rparr>) \<and>
            (maxSize wc < int (length p) \<longrightarrow> maxSize wc < int (length (bs @ p))))
         \<and> clip sz mxs (- 1) br = (br, False)
         \<and> (fst (scan_lines (size' wd) (maxSize wd) (lastNewline wd) q 0) = - 1 \<longrightarrow>
            Write_chunk wd q k u =
              (case WriteAt
                      (take (nat (snd (scan_lines (size' wd) (maxSize wd)
                                         (lastNewline wd) q 0))) q)
                      (size' wd) u of
                 (n, err, v3) \<Rightarrow>
                   (case err of
                      Some e \<Rightarrow>
                        Stop (Returned (k + n) (Some e),
                              wd\<lparr>lastNewline := - 1, size' := size' wd + n\<rparr>, v3)
                    | None \<Rightarrow>
                        Again (wd\<lparr>lastNewline := - 1, size' := size' wd + n\<rparr>)
                          (drop (nat (snd (scan_lines (size' wd) (maxSize wd)
                                             (lastNewline wd) q 0))) q)
                          (k + n) v3)))"
proof -
  let ?ln = "if last p = NL then size' wc + int (length p) - 1 else - 1"
  have sc: "scan_lines (size' wc) (maxSize wc) (lastNewline wc) p 0 = (?ln, int (length p))"
    unfolding assms(3) by (rule scan_one_line [OF assms(5,4)])
  have cl: "clip (size' wc) (maxSize wc) ?ln (int (length p)) = (int (length p), False)"
    by (simp add: clip_def Let_def)
  obtain n err w1 where wr: "WriteAt p (size' wc) w = (n, err, w1)" by (metis prod_cases3)
  have ch: "Write_chunk wc p 0 w =
      (case err of
         Some e \<Rightarrow>
           Stop (Returned n (Some e), wc\<lparr>lastNewline := ?ln, size' := size' wc + n\<rparr>, w1)
       | None \<Rightarrow> Again (wc\<lparr>lastNewline := ?ln, size' := size' wc + n\<rparr>) [] n w1)"
    using WriteAt_full [of p "size' wc" w n w1]
    by (simp add: Write_chunk_def sc cl wr Let_def split: option.splits)
  have lp: "Write_loop wc p 0 w =
      (Returned n err, wc\<lparr>lastNewline := ?ln, size' := size' wc + n\<rparr>, w1)"
    using assms(4) ch by (cases err) (simp_all add: Write_loop.simps)
  have W: "Write wc p w =
      (Returned n err, wc\<lparr>size' := size' wc + n, lastNewline := ?ln, writeErr := err\<rparr>, w1)"
    using assms(1,2) lp by (cases wc) (simp add: Write_def)
  have c1: "Write wc p w =
           (case WriteAt p (size' wc) w of
              (n, err, w1) \<Rightarrow>
                (Returned n err,
                 wc\<lparr>size' := size' wc + n, lastNewline := ?ln, writeErr := err\<rparr>, w1))"
    using W wr by simp
  have c2: "io_count (snd (snd (Write wc p w))) = Suc (io_count w)"
    using W wr handle_ops_io(3) [of p "size' wc" w] by simp
  have c3: "archives (snd (snd (Write wc p w))) = archives w"
    using W wr WriteAt_archives [of p "size' wc" w] by simp
  have c4: "io_count v < io_count (snd (snd (rotate' wx v)))" by (rule rotate_io)
  have c5: "Write wc p w =
              (Returned (int (length p)) None,
               wc\<lparr>size' := size' wc + int (length p), lastNewline := ?ln\<rparr>,
               w\<lparr>target := Regular (bs @ p), io_count := Suc (io_count w)\<rparr>) \<and>
            (maxSize wc < int (length p) \<longrightarrow> maxSize wc < int (length (bs @ p)))"
    if env: "target w = Regular bs \<and> size' wc = int (length bs) \<and> handle_open w \<and>
              fault_now w = None"
  proof -
    from env assms(4) have "WriteAt p (size' wc) w =
      (int (length p), None, w\<lparr>target := Regular (bs @ p), io_count := Suc (io_count w)\<rparr>)"
      by (simp add: WriteAt_def write_at_def content_def step_def)
    with c1 assms(1) show ?thesis by (cases wc) simp
  qed
  have c6: "clip sz mxs (- 1) br = (br, False)" by (simp add: clip_def)
  have c7: "Write_chunk wd q k u =
              (case WriteAt
                      (take (nat (snd (scan_lines (size' wd) (maxSize wd)
                                         (lastNewline wd) q 0))) q)
                      (size' wd) u of
                 (n, err, v3) \<Rightarrow>
                   (case err of
                      Some e \<Rightarrow>
                        Stop (Returned (k + n) (Some e),
                              wd\<lparr>lastNewline := - 1, size' := size' wd + n\<rparr>, v3)
                    | None \<Rightarrow>
                        Again (wd\<lparr>lastNewline := - 1, size' := size' wd + n\<rparr>)
                          (drop (nat (snd (scan_lines (size' wd) (maxSize wd)
                                             (lastNewline wd) q 0))) q)
                          (k + n) v3))"
    if "fst (scan_lines (size' wd) (maxSize wd) (lastNewline wd) q 0) = - 1"
  proof -
    from that have "scan_lines (size' wd) (maxSize wd) (lastNewline wd) q 0 =
        (- 1, snd (scan_lines (size' wd) (maxSize wd) (lastNewline wd) q 0))"
      by (simp add: prod_eq_iff)
    then show ?thesis by (rule Write_chunk_no_newline)
  qed
  from c1 c2 c3 c4 c5 c6 c7 show ?thesis by blast
qed

text \<open>
  Two instances, with \<open>maxSize = 5\<close>: the line \<open>"cdefghi\n"\<close> after \<open>"ab"\<close>, and the
  write of \<open>"def"\<close> after \<open>"abc"\<close>, which takes the file beyond \<open>maxSize\<close> although
  neither write is longer than it.
\<close>

theorem Write_long_line_witness:
  "Write \<lparr>path = ''logfile'', perm = 384, maxSize = 5, maxFiles = 3, size' = 2,
          lastNewline = - 1, closed = False, writeErr = None\<rparr>
     [99, 100, 101, 102, 103, 104, 105, 10]
     \<lparr>target = Regular [97, 98], archives = fmempty, handle_open = True, cursor = 0,
      io_count = 0, faults = no_faults\<rparr>
   = (Returned 8 None,
      \<lparr>path = ''logfile'', perm = 384, maxSize = 5, maxFiles = 3, size' = 10,
       lastNewline = 9, closed = False, writeErr = None\<rparr>,
      \<lparr>target = Regular [97, 98, 99, 100, 101, 102, 103, 104, 105, 10],
       archives = fmempty, handle_open = True, cursor = 0, io_count = 1,
       faults = no_faults\<rparr>)
   \<and> Write \<lparr>path = ''logfile'', perm = 384, maxSize = 5, maxFiles = 3, size' = 3,
          lastNewline = - 1, closed = False, writeErr = None\<rparr>
     [100, 101, 102]
     \<lparr>target = Regular [97, 98, 99], archives = fmempty, handle_open = True, cursor = 0,
      io_count = 1, faults = no_faults\<rparr>
   = (Returned 3 None,
      \<lparr>path = ''logfile'', perm = 384, maxSize = 5, maxFiles = 3, size' = 6,
       lastNewline = - 1, closed = False, writeErr = None\<rparr>,
      \<lparr>target = Regular [97, 98, 99, 100, 101, 102],
       archives = fmempty, handle_open = True, cursor = 0, io_count = 2,
       faults = no_faults\<rparr>)
   \<and> Write_chunk \<lparr>path = ''logfile'', perm = 384, maxSize = 5, maxFiles = 3, size' = 3,
          lastNewline = - 1, closed = False, writeErr = None\<rparr>
     [100, 101, 102] 0
     \<lparr>target = Regular [97, 98, 99], archives = fmempty, handle_open = True, cursor = 0,
      io_count = 1, faults = no_faults\<rparr>
   = Again \<lparr>path = ''logfile'', perm = 384, maxSize = 5, maxFiles = 3, size' = 6,
       lastNewline = - 1, closed = False, writeErr = None\<rparr> [] 3
      \<lparr>target = Regular [97, 98, 99, 100, 101, 102],
       archives = fmempty, handle_open = True, cursor = 0, io_count = 2,
       faults = no_faults\<rparr>"
proof -
  let ?wc = "\<lparr>path = ''logfile'', perm = 384, maxSize = 5, maxFiles = 3, size' = 2,
          lastNewline = - 1, closed = False, writeErr = None\<rparr>"
  let ?w = "\<lparr>target = Regular [97, 98], archives = fmempty, handle_open = True, cursor = 0,
      io_count = 0, faults = no_faults\<rparr>"
  let ?wd = "\<lparr>path = ''logfile'', perm = 384, maxSize = 5, maxFiles = 3, size' = 3,
          lastNewline = - 1, closed = False, writeErr = None\<rparr>"
  let ?v = "\<lparr>target = Regular [97, 98, 99], archives = fmempty, handle_open = True,
      cursor = 0, io_count = 1, faults = no_faults\<rparr>"
  have s: "scan_lines 3 5 (- 1) [100, 101, 102] 0 = (- 1, 3)"
    by (simp add: scan_lines.simps)
  from Write_long_line [where wc = ?wc and p = "[99, 100, 101, 102, 103, 104, 105, 10]"
      and w = ?w and bs = "[97, 98]" and wd = ?wd and q = "[100, 101, 102]" and k = 0
      and u = ?v and v = ?v and wx = ?wd and sz = 3 and mxs = 5 and br = 3]
  have 1: "Write ?wc [99, 100, 101, 102, 103, 104, 105, 10] ?w
     = (Returned 8 None,
      \<lparr>path = ''logfile'', perm = 384, maxSize = 5, maxFiles = 3, size' = 10,
       lastNewline = 9, closed = False, writeErr = None\<rparr>,
      \<lparr>target = Regular [97, 98, 99, 100, 101, 102, 103, 104, 105, 10],
       archives = fmempty, handle_open = True, cursor = 0, io_count = 1,
       faults = no_faults\<rparr>)"
    and 3: "Write_chunk ?wd [100, 101, 102] 0 ?v
     = Again \<lparr>path = ''logfile'', perm = 384, maxSize = 5, maxFiles = 3, size' = 6,
       lastNewline = - 1, closed = False, writeErr = None\<rparr> [] 3
      \<lparr>target = Regular [97, 98, 99, 100, 101, 102],
       archives = fmempty, handle_open = True, cursor = 0, io_count = 2,
       faults = no_faults\<rparr>"
    by (simp_all add: s WriteAt_def write_at_def content_def step_def fault_now_def no_faults_def)
  from Write_long_line [where wc = ?wd and p = "[100, 101, 102]"
      and w = ?v and bs = "[97, 98, 99]" and wd = ?wd and q = "[100, 101, 102]" and k = 0
      and u = ?v and v = ?v and wx = ?wd and sz = 3 and mxs = 5 and br = 3]
  have 2: "Write ?wd [100, 101, 102] ?v
   = (Returned 3 None,
      \<lparr>path = ''logfile'', perm = 384, maxSize = 5, maxFiles = 3, size' = 6,
       lastNewline = - 1, closed = False, writeErr = None\<rparr>,
      \<lparr>target = Regular [97, 98, 99, 100, 101, 102],
       archives = fmempty, handle_open = True, cursor = 0, io_count = 2,
       faults = no_faults\<rparr>)"
    by (simp add: s WriteAt_def write_at_def content_def step_def fault_now_def no_faults_def)
  from 1 2 3 show ?thesis by simp
qed

end
